theory Spec2Isabelle
  imports Main "HOL-Library.Word"
begin

unbundle bit_operations_syntax

section \<open>Bytes, styles and configuration\<close>

text \<open>
  A Go \<^verbatim>\<open>[]byte\<close> or \<^verbatim>\<open>string\<close> is a list of 8-bit characters; \<open>LF\<close> is
  \<^verbatim>\<open>'\n'\<close> and \<open>CR\<close> is \<^verbatim>\<open>'\r'\<close>.
\<close>

abbreviation LF :: char where
  "LF \<equiv> CHR 0x0A"

abbreviation CR :: char where
  "CR \<equiv> CHR 0x0D"

record CommentStyle =
  Prefix :: string
  Suffix :: string

definition GoStyle :: CommentStyle where
  "GoStyle = \<lparr>Prefix = ''// '', Suffix = ''''\<rparr>"

definition CStyle :: CommentStyle where
  "CStyle = \<lparr>Prefix = ''// '', Suffix = ''''\<rparr>"

definition PythonStyle :: CommentStyle where
  "PythonStyle = \<lparr>Prefix = ''# '', Suffix = ''''\<rparr>"

definition SQLStyle :: CommentStyle where
  "SQLStyle = \<lparr>Prefix = ''-- '', Suffix = ''''\<rparr>"

definition HTMLStyle :: CommentStyle where
  "HTMLStyle = \<lparr>Prefix = ''<!-- '', Suffix = '' -->''\<rparr>"

definition ShellStyle :: CommentStyle where
  "ShellStyle = \<lparr>Prefix = ''# '', Suffix = ''''\<rparr>"

definition RubyStyle :: CommentStyle where
  "RubyStyle = \<lparr>Prefix = ''# '', Suffix = ''''\<rparr>"

definition JSStyle :: CommentStyle where
  "JSStyle = \<lparr>Prefix = ''// '', Suffix = ''''\<rparr>"

definition predefined_styles :: "CommentStyle list" where
  "predefined_styles =
     [GoStyle, CStyle, PythonStyle, SQLStyle, HTMLStyle, ShellStyle, RubyStyle, JSStyle]"

text \<open>
  \<^verbatim>\<open>Config.BufferSize\<close> is a Go \<^verbatim>\<open>int\<close>; \<^verbatim>\<open>make([]byte, BufferSize)\<close> panics on a
  negative size, which \<open>processStream\<close> and \<open>verifyStream\<close> below keep as a branch.
\<close>

record Config =
  CommentStyle :: CommentStyle
  BufferSize :: int

definition DefaultConfig :: Config where
  "DefaultConfig = \<lparr>CommentStyle = GoStyle, BufferSize = 64 * 1024\<rparr>"

definition keyText :: string where
  "keyText = ''FileIntegrity: ''"

definition maxCommentSize :: "Config \<Rightarrow> nat" where
  "maxCommentSize c =
     length (Prefix (CommentStyle c)) + length keyText + 8 + length (Suffix (CommentStyle c)) + 2"

definition windowSize :: "Config \<Rightarrow> nat" where
  "windowSize c = maxCommentSize c + 2"

section \<open>CRC-32 (IEEE), as \<^verbatim>\<open>hash/crc32\<close> computes it\<close>

text \<open>
  The table entry of \<^verbatim>\<open>simpleMakeTable\<close> and the byte loop of \<^verbatim>\<open>simpleUpdate\<close>; the
  hasher's state is the running 32-bit value, \<^verbatim>\<open>NewIEEE\<close> starts it at 0, \<^verbatim>\<open>Write\<close>
  is \<open>crc_update\<close> and \<^verbatim>\<open>Sum32\<close> reads it.
\<close>

definition tab_step :: "32 word \<Rightarrow> 32 word" where
  "tab_step c = (if bit c 0 then drop_bit 1 c XOR 0xEDB88320 else drop_bit 1 c)"

definition ieee_table :: "32 word \<Rightarrow> 32 word" where
  "ieee_table i =
     tab_step (tab_step (tab_step (tab_step (tab_step (tab_step (tab_step (tab_step i)))))))"

definition crc_byte :: "char \<Rightarrow> 32 word \<Rightarrow> 32 word" where
  "crc_byte v crc = ieee_table ((crc XOR of_char v) AND 0xFF) XOR drop_bit 8 crc"

definition crc_update :: "32 word \<Rightarrow> string \<Rightarrow> 32 word" where
  "crc_update crc p = NOT (fold crc_byte p (NOT crc))"

section \<open>Hexadecimal text\<close>

text \<open>\<^verbatim>\<open>fmt.Sprintf("%08X", crc)\<close> on a \<^verbatim>\<open>uint32\<close>: eight upper-case digits.\<close>

definition hexDigit :: "32 word \<Rightarrow> char" where
  "hexDigit d = ''0123456789ABCDEF'' ! unat (d AND 0xF)"

definition fmt08X :: "32 word \<Rightarrow> string" where
  "fmt08X w = map (\<lambda>i. hexDigit (drop_bit (4 * i) w)) [7, 6, 5, 4, 3, 2, 1, 0]"

text \<open>
  \<^verbatim>\<open>hex.DecodeString\<close>: an error (\<open>None\<close>) on an odd length or on a character that
  is not a hexadecimal digit of either case.
\<close>

definition fromHexChar :: "char \<Rightarrow> 32 word option" where
  "fromHexChar c =
     (let k = of_char c :: nat in
      if 48 \<le> k \<and> k \<le> 57 then Some (of_nat (k - 48))
      else if 97 \<le> k \<and> k \<le> 102 then Some (of_nat (k - 97 + 10))
      else if 65 \<le> k \<and> k \<le> 70 then Some (of_nat (k - 65 + 10))
      else None)"

fun hexDecodeString :: "string \<Rightarrow> 32 word list option" where
  "hexDecodeString [] = Some []"
| "hexDecodeString [a] = None"
| "hexDecodeString (a # b # r) =
     (case fromHexChar a of
        None \<Rightarrow> None
      | Some x \<Rightarrow>
          (case fromHexChar b of
             None \<Rightarrow> None
           | Some y \<Rightarrow>
               (case hexDecodeString r of
                  None \<Rightarrow> None
                | Some bs \<Rightarrow> Some ((push_bit 4 x OR y) # bs))))"

text \<open>The four decoded bytes, most significant first, as one \<^verbatim>\<open>uint32\<close>.\<close>

definition parseCRC :: "string \<Rightarrow> 32 word option" where
  "parseCRC crcHex =
     (case hexDecodeString crcHex of
        Some [b0, b1, b2, b3] \<Rightarrow> Some (push_bit 24 b0 OR push_bit 16 b1 OR push_bit 8 b2 OR b3)
      | _ \<Rightarrow> None)"

section \<open>The marker pattern\<close>

text \<open>
  \<^verbatim>\<open>createCommentPattern\<close> compiles
  \<^verbatim>\<open>(?m)^<prefix>FileIntegrity: ([0-9A-F]{8})<suffix>\r?\n?$\<close> with prefix and suffix
  quoted, so that they match literally. In multi-line mode \<^verbatim>\<open>^\<close> holds at the start of
  the text and after a line feed, \<^verbatim>\<open>$\<close> at the end of the text and before a line feed.
  \<^verbatim>\<open>FindSubmatchIndex\<close> returns the leftmost match: the start and end of the match and of
  the group, \<^verbatim>\<open>[m0, m1, g0, g1]\<close>, or nil.

  The matcher below compares bytes. Go's \<^verbatim>\<open>regexp\<close> compares runes:
  \<^verbatim>\<open>regexp.MustCompile\<close> panics on a pattern that is not valid UTF-8, and a U+FFFD in the
  pattern matches every invalid byte of the input. The two agree when prefix and suffix
  are ASCII (\<open>asciiStyle\<close>, which holds of the eight predefined styles): every rune
  of the pattern is then one byte below 128, which the input holds only as that byte, and
  a match starts at offset 0 or after a line feed, both rune boundaries.
\<close>

definition asciiStyle :: "CommentStyle \<Rightarrow> bool" where
  "asciiStyle st = list_all (\<lambda>ch. of_char ch < (128 :: nat)) (Prefix st @ Suffix st)"

definition beginLine :: "string \<Rightarrow> nat \<Rightarrow> bool" where
  "beginLine w i = (i = 0 \<or> w ! (i - 1) = LF)"

definition endLine :: "string \<Rightarrow> nat \<Rightarrow> bool" where
  "endLine w i = (i = length w \<or> (i < length w \<and> w ! i = LF))"

definition isUpperHex :: "char \<Rightarrow> bool" where
  "isUpperHex c =
     (let k = of_char c :: nat in (48 \<le> k \<and> k \<le> 57) \<or> (65 \<le> k \<and> k \<le> 70))"

text \<open>
  The tail \<^verbatim>\<open>\r?\n?$\<close> from position \<open>e\<close>: both operators are greedy, so the
  alternatives are tried in the order (CR, LF), (CR), (LF), (nothing).
\<close>

definition matchTail :: "string \<Rightarrow> nat \<Rightarrow> nat option" where
  "matchTail w e =
     (if e + 1 < length w \<and> w ! e = CR \<and> w ! (e + 1) = LF \<and> endLine w (e + 2) then Some (e + 2)
      else if e < length w \<and> w ! e = CR \<and> endLine w (e + 1) then Some (e + 1)
      else if e < length w \<and> w ! e = LF \<and> endLine w (e + 1) then Some (e + 1)
      else if endLine w e then Some e
      else None)"

definition matchAt :: "CommentStyle \<Rightarrow> string \<Rightarrow> nat \<Rightarrow> (nat \<times> nat \<times> nat \<times> nat) option" where
  "matchAt st w i =
     (let lit = Prefix st @ keyText;
          g0 = i + length lit;
          g1 = g0 + 8;
          e = g1 + length (Suffix st)
      in if beginLine w i \<and> e \<le> length w
            \<and> take (length lit) (drop i w) = lit
            \<and> list_all isUpperHex (take 8 (drop g0 w))
            \<and> take (length (Suffix st)) (drop g1 w) = Suffix st
         then (case matchTail w e of None \<Rightarrow> None | Some m1 \<Rightarrow> Some (i, m1, g0, g1))
         else None)"

definition FindSubmatchIndex :: "CommentStyle \<Rightarrow> string \<Rightarrow> (nat \<times> nat \<times> nat \<times> nat) option" where
  "FindSubmatchIndex st w =
     (case List.map_filter (matchAt st w) [0..<Suc (length w)] of
        [] \<Rightarrow> None
      | m # _ \<Rightarrow> Some m)"

section \<open>Line endings and the marker line\<close>

fun detectFrom :: "char option \<Rightarrow> string \<Rightarrow> string" where
  "detectFrom prev [] = [LF]"
| "detectFrom prev (c # cs) =
     (if c = LF then (if prev = Some CR then [CR, LF] else [LF])
      else detectFrom (Some c) cs)"

definition detectLineEnding :: "string \<Rightarrow> string" where
  "detectLineEnding content = detectFrom None content"

definition createComment :: "Config \<Rightarrow> 32 word \<Rightarrow> string \<Rightarrow> string" where
  "createComment c crc lineEnding =
     Prefix (CommentStyle c) @ keyText @ fmt08X crc @ Suffix (CommentStyle c) @ lineEnding"

section \<open>Final window: Writer and Reader\<close>

text \<open>
  The destination is the byte string written so far (\<^verbatim>\<open>bufio.Writer\<close> over the
  temporary file, flushed on return); a destination that fails is outside the model.
  \<open>finalizeEmpty\<close> and \<open>finalizeWindow\<close> return the destination after their writes,
  \<open>finalizeWindow\<close> with the no-op flag.
\<close>

definition finalizeEmpty :: "Config \<Rightarrow> string \<Rightarrow> 32 word \<Rightarrow> string" where
  "finalizeEmpty c dst hasher = dst @ createComment c hasher [LF]"

text \<open>
  The bytes of \<open>contentPart\<close> that go into the checksum, and whether a line ending
  must be added: the Writer's branch on the last one or two bytes.
\<close>

definition writerCrcPart :: "string \<Rightarrow> string \<times> bool" where
  "writerCrcPart crcContent =
     (if length crcContent > 0 then
        (if crcContent ! (length crcContent - 1) = LF then
           (if length crcContent > 1 \<and> crcContent ! (length crcContent - 2) = CR
            then (take (length crcContent - 2) crcContent, False)
            else (take (length crcContent - 1) crcContent, False))
         else (crcContent, True))
      else ([], False))"

definition finalizeWindow :: "Config \<Rightarrow> string \<Rightarrow> 32 word \<Rightarrow> string \<Rightarrow> bool \<times> string" where
  "finalizeWindow c dst hasher window =
     (let match = FindSubmatchIndex (CommentStyle c) window;
          contentPart = (case match of None \<Rightarrow> window | Some (m0, m1, g0, g1) \<Rightarrow> take m0 window);
          existing = (case match of
                        None \<Rightarrow> None
                      | Some (m0, m1, g0, g1) \<Rightarrow> parseCRC (take (g1 - g0) (drop g0 window)));
          lineEnding = detectLineEnding window;
          (crcPart, needsNewline) = writerCrcPart contentPart;
          calculatedCRC = crc_update hasher crcPart
      in if existing = Some calculatedCRC then (True, dst @ window)
         else (False,
               dst @ contentPart @ (if needsNewline then lineEnding else [])
                   @ createComment c calculatedCRC lineEnding))"

datatype error = ReadError | EmptyFile | NoComment | InvalidCRC | SlicePanic | MakePanic

text \<open>The Reader strips the line ending before its single \<^verbatim>\<open>hasher.Write\<close>.\<close>

definition readerCrcPart :: "string \<Rightarrow> string" where
  "readerCrcPart contentPart =
     (if length contentPart > 0 then
        (if contentPart ! (length contentPart - 1) = LF then
           (if length contentPart > 1 \<and> contentPart ! (length contentPart - 2) = CR
            then take (length contentPart - 2) contentPart
            else take (length contentPart - 1) contentPart)
         else contentPart)
      else [])"

definition verifyWindow :: "Config \<Rightarrow> 32 word \<Rightarrow> string \<Rightarrow> error + bool" where
  "verifyWindow c hasher window =
     (case FindSubmatchIndex (CommentStyle c) window of
        None \<Rightarrow> Inl NoComment
      | Some (m0, m1, g0, g1) \<Rightarrow>
          (case parseCRC (take (g1 - g0) (drop g0 window)) of
             None \<Rightarrow> Inl InvalidCRC
           | Some storedCRC \<Rightarrow>
               Inr (crc_update hasher (readerCrcPart (take m0 window)) = storedCRC)))"

section \<open>The source stream\<close>

text \<open>
  An \<^verbatim>\<open>io.Reader\<close> is the list of the results its reads will give: the bytes and the
  error (nil, \<^verbatim>\<open>io.EOF\<close> or another). A read into \<open>cap\<close> free bytes returns at most
  \<open>cap\<close> bytes and leaves the rest of a longer chunk for the next read. A reader with
  nothing left reports \<^verbatim>\<open>io.EOF\<close>, except into an empty slice, where it returns
  \<^verbatim>\<open>(0, nil)\<close> as \<^verbatim>\<open>os.File\<close> does.
\<close>

datatype rerr = ErrNil | ErrEOF | ErrOther

type_synonym reader = "(string \<times> rerr) list"

fun Read :: "reader \<Rightarrow> nat \<Rightarrow> (string \<times> rerr) \<times> reader" where
  "Read [] cap = (([], if cap = 0 then ErrNil else ErrEOF), [])"
| "Read ((c, e) # r) cap =
     (if length c \<le> cap then ((c, e), r)
      else ((take cap c, ErrNil), (drop cap c, e) # r))"

text \<open>A regular file: every read is as long as it can be, and the end is a read of its own.\<close>

definition fileReader :: "string \<Rightarrow> reader" where
  "fileReader content = (if content = [] then [] else [(content, ErrNil)])"

text \<open>The bytes a reader delivers up to its first error or end.\<close>

fun streamContent :: "reader \<Rightarrow> string" where
  "streamContent [] = []"
| "streamContent ((c, e) # r) = c @ (if e = ErrNil then streamContent r else [])"

text \<open>
  Two kinds of reader: one that reports \<^verbatim>\<open>io.EOF\<close> only by a read that delivers no
  bytes (as \<^verbatim>\<open>os.File\<close> does; \<^verbatim>\<open>io.Reader\<close> also allows the last bytes and the
  end in one read), and one that reports no other error.
\<close>

definition eofAlone :: "reader \<Rightarrow> bool" where
  "eofAlone rd = list_all (\<lambda>(c, e). e = ErrEOF \<longrightarrow> c = []) rd"

definition noReadError :: "reader \<Rightarrow> bool" where
  "noReadError rd = list_all (\<lambda>(c, e). e \<noteq> ErrOther) rd"

section \<open>The sliding-window loops\<close>

record wstate =
  buffer :: string
  n :: nat
  firstRead :: bool
  eof :: bool
  src :: reader
  dst :: string
  hasher :: "32 word"

text \<open>
  \<^verbatim>\<open>copy(buffer, buffer[a:b])\<close> moves \<open>b - a\<close> bytes to the front;
  \<^verbatim>\<open>src.Read(buffer[k:])\<close> stores the chunk from offset \<open>k\<close>.
\<close>

definition copyFront :: "string \<Rightarrow> nat \<Rightarrow> nat \<Rightarrow> string" where
  "copyFront buf a b = take (b - a) (drop a buf) @ drop (b - a) buf"

definition store :: "string \<Rightarrow> nat \<Rightarrow> string \<Rightarrow> string" where
  "store buf k chunk = take k buf @ chunk @ drop (k + length chunk) buf"

text \<open>
  One iteration of the Writer's loop. A slice expression out of range panics:
  \<^verbatim>\<open>buffer[:n-windowSize]\<close> when \<open>n < windowSize\<close>, \<^verbatim>\<open>buffer[n:]\<close> when \<open>n\<close> exceeds the
  buffer's length.
\<close>

definition processStep :: "nat \<Rightarrow> wstate \<Rightarrow> error + wstate" where
  "processStep W s =
     (let r1 =
        (if firstRead s then
           (if n s > W then
              (let writeLen = n s - W in
               Inr (s\<lparr>dst := dst s @ take writeLen (buffer s),
                       hasher := crc_update (hasher s) (take writeLen (buffer s)),
                       buffer := copyFront (buffer s) writeLen (n s),
                       n := n s - writeLen,
                       firstRead := False\<rparr>))
            else Inr (s\<lparr>firstRead := False\<rparr>))
         else if n s < W then Inl SlicePanic
         else Inr (s\<lparr>dst := dst s @ take (n s - W) (buffer s),
                       hasher := crc_update (hasher s) (take (n s - W) (buffer s)),
                       buffer := copyFront (buffer s) (n s - W) (n s),
                       n := W\<rparr>))
      in case r1 of
           Inl e \<Rightarrow> Inl e
         | Inr s1 \<Rightarrow>
             (if n s1 > length (buffer s1) then Inl SlicePanic
              else
                (case Read (src s1) (length (buffer s1) - n s1) of
                   ((chunk, err), src') \<Rightarrow>
                     (if err = ErrOther then Inl ReadError
                      else Inr (s1\<lparr>buffer := store (buffer s1) (n s1) chunk,
                                     n := n s1 + length chunk,
                                     eof := (err = ErrEOF),
                                     src := src'\<rparr>)))))"

partial_function (option) processLoop :: "nat \<Rightarrow> wstate \<Rightarrow> (error + wstate) option" where
  "processLoop W s =
     (if eof s then Some (Inr s)
      else (case processStep W s of
              Inl e \<Rightarrow> Some (Inl e)
            | Inr s' \<Rightarrow> processLoop W s'))"

declare processLoop.simps [code]

text \<open>
  \<open>processStream\<close>: \<open>None\<close> when the loop does not return; otherwise the error, or
  the no-op flag and the bytes written to the destination.
\<close>

definition processStream :: "Config \<Rightarrow> reader \<Rightarrow> (error + bool \<times> string) option" where
  "processStream c rd =
     (if BufferSize c < 0 then Some (Inl MakePanic)
      else
        (let W = windowSize c;
             buf = replicate (nat (BufferSize c)) (CHR 0x00)
         in case Read rd (length buf) of
              ((chunk, err), rd') \<Rightarrow>
                (if err = ErrOther then Some (Inl ReadError)
                 else if length chunk = 0 then Some (Inr (False, finalizeEmpty c [] 0))
                 else
                   (case processLoop W
                           \<lparr>buffer = store buf 0 chunk, n = length chunk, firstRead = True,
                            eof = (err = ErrEOF), src = rd', dst = [], hasher = 0\<rparr> of
                      None \<Rightarrow> None
                    | Some (Inl e) \<Rightarrow> Some (Inl e)
                    | Some (Inr s) \<Rightarrow>
                        Some (Inr (finalizeWindow c (dst s) (hasher s) (take (n s) (buffer s))))))))"

text \<open>The Reader's loop is the same without a destination.\<close>

record rstate =
  rbuffer :: string
  rn :: nat
  rfirstRead :: bool
  reof :: bool
  rsrc :: reader
  rhasher :: "32 word"

definition verifyStep :: "nat \<Rightarrow> rstate \<Rightarrow> error + rstate" where
  "verifyStep W s =
     (let r1 =
        (if rfirstRead s then
           (if rn s > W then
              (let hashLen = rn s - W in
               Inr (s\<lparr>rhasher := crc_update (rhasher s) (take hashLen (rbuffer s)),
                       rbuffer := copyFront (rbuffer s) hashLen (rn s),
                       rn := rn s - hashLen,
                       rfirstRead := False\<rparr>))
            else Inr (s\<lparr>rfirstRead := False\<rparr>))
         else if rn s < W then Inl SlicePanic
         else Inr (s\<lparr>rhasher := crc_update (rhasher s) (take (rn s - W) (rbuffer s)),
                       rbuffer := copyFront (rbuffer s) (rn s - W) (rn s),
                       rn := W\<rparr>))
      in case r1 of
           Inl e \<Rightarrow> Inl e
         | Inr s1 \<Rightarrow>
             (if rn s1 > length (rbuffer s1) then Inl SlicePanic
              else
                (case Read (rsrc s1) (length (rbuffer s1) - rn s1) of
                   ((chunk, err), src') \<Rightarrow>
                     (if err = ErrOther then Inl ReadError
                      else Inr (s1\<lparr>rbuffer := store (rbuffer s1) (rn s1) chunk,
                                     rn := rn s1 + length chunk,
                                     reof := (err = ErrEOF),
                                     rsrc := src'\<rparr>)))))"

partial_function (option) verifyLoop :: "nat \<Rightarrow> rstate \<Rightarrow> (error + rstate) option" where
  "verifyLoop W s =
     (if reof s then Some (Inr s)
      else (case verifyStep W s of
              Inl e \<Rightarrow> Some (Inl e)
            | Inr s' \<Rightarrow> verifyLoop W s'))"

declare verifyLoop.simps [code]

definition verifyStream :: "Config \<Rightarrow> reader \<Rightarrow> (error + bool) option" where
  "verifyStream c rd =
     (if BufferSize c < 0 then Some (Inl MakePanic)
      else
        (let W = windowSize c;
             buf = replicate (nat (BufferSize c)) (CHR 0x00)
         in case Read rd (length buf) of
              ((chunk, err), rd') \<Rightarrow>
                (if err = ErrOther then Some (Inl ReadError)
                 else if length chunk = 0 then Some (Inl EmptyFile)
                 else
                   (case verifyLoop W
                           \<lparr>rbuffer = store buf 0 chunk, rn = length chunk, rfirstRead = True,
                            reof = (err = ErrEOF), rsrc = rd', rhasher = 0\<rparr> of
                      None \<Rightarrow> None
                    | Some (Inl e) \<Rightarrow> Some (Inl e)
                    | Some (Inr s) \<Rightarrow>
                        Some (verifyWindow c (rhasher s) (take (rn s) (rbuffer s)))))))"

section \<open>Files: \<^verbatim>\<open>ProcessFile\<close> and \<^verbatim>\<open>VerifyFile\<close>\<close>

text \<open>
  The file system is a map from paths to files with their attributes; every operation
  that changes it is appended to a trace. \<^verbatim>\<open>os.CreateTemp\<close> picks the name of a file
  that does not exist yet (\<open>tmpPick\<close>, \<open>None\<close> when it cannot create one). Opening the
  source gives a regular file's reader. What \<^verbatim>\<open>os.Chown\<close> does is the system's:
  \<open>chownEffect\<close> gives the file after a chown that succeeds (the new owner and group,
  and the mode as the system leaves it: Linux clears the set-user-ID and set-group-ID
  bits), \<open>None\<close> when it fails; the code ignores that error.
\<close>

type_synonym path = string

record fileinfo =
  content :: string
  mode :: nat
  uid :: nat
  gid :: nat
  mtime :: nat

datatype fsop =
    CreateTemp path
  | WriteFile path string
  | Remove path
  | Chmod path nat
  | Chown path nat nat
  | Rename path path

record world =
  fs :: "path \<rightharpoonup> fileinfo"
  clock :: nat
  procUid :: nat
  procGid :: nat
  chownEffect :: "fileinfo \<Rightarrow> nat \<Rightarrow> nat \<Rightarrow> fileinfo option"
  trace :: "fsop list"

definition osCreateTemp :: "world \<Rightarrow> path \<Rightarrow> world" where
  "osCreateTemp w p =
     w\<lparr>fs := (fs w)(p \<mapsto> \<lparr>content = [], mode = 384, uid = procUid w, gid = procGid w,
                                  mtime = clock w\<rparr>),
       clock := Suc (clock w),
       trace := trace w @ [CreateTemp p]\<rparr>"

definition osWrite :: "world \<Rightarrow> path \<Rightarrow> string \<Rightarrow> world" where
  "osWrite w p bytes =
     w\<lparr>fs := (case fs w p of
                    None \<Rightarrow> fs w
                  | Some f \<Rightarrow> (fs w)(p \<mapsto> f\<lparr>content := content f @ bytes, mtime := clock w\<rparr>)),
       clock := Suc (clock w),
       trace := trace w @ [WriteFile p bytes]\<rparr>"

definition osRemove :: "world \<Rightarrow> path \<Rightarrow> world" where
  "osRemove w p = w\<lparr>fs := (fs w)(p := None), trace := trace w @ [Remove p]\<rparr>"

definition osChmod :: "world \<Rightarrow> path \<Rightarrow> nat \<Rightarrow> world" where
  "osChmod w p m =
     w\<lparr>fs := (case fs w p of None \<Rightarrow> fs w | Some f \<Rightarrow> (fs w)(p \<mapsto> f\<lparr>mode := m\<rparr>)),
       trace := trace w @ [Chmod p m]\<rparr>"

definition osChown :: "world \<Rightarrow> path \<Rightarrow> nat \<Rightarrow> nat \<Rightarrow> world" where
  "osChown w p u g =
     w\<lparr>fs := (case fs w p of
                    None \<Rightarrow> fs w
                  | Some f \<Rightarrow>
                      (case chownEffect w f u g of
                         None \<Rightarrow> fs w
                       | Some f' \<Rightarrow> (fs w)(p \<mapsto> f'))),
       trace := trace w @ [Chown p u g]\<rparr>"

definition osRename :: "world \<Rightarrow> path \<Rightarrow> path \<Rightarrow> world" where
  "osRename w old new =
     w\<lparr>fs := (case fs w old of
                    None \<Rightarrow> fs w
                  | Some f \<Rightarrow> ((fs w)(old := None))(new \<mapsto> f)),
       trace := trace w @ [Rename old new]\<rparr>"

definition preserveAttributes :: "world \<Rightarrow> path \<Rightarrow> fileinfo \<Rightarrow> world" where
  "preserveAttributes w dstPath srcInfo =
     osChown (osChmod w dstPath (mode srcInfo)) dstPath (uid srcInfo) (gid srcInfo)"

datatype perror = StatFailed | OpenFailed | CreateTempFailed | StreamFailed error

text \<open>
  \<open>ProcessFile\<close>: \<open>None\<close> when the streaming pass does not return. On an error of the
  streaming pass the deferred clean-up removes the temporary file. Opening a file that
  exists, and the chmod and rename of the temporary file just created, are taken to
  succeed.
\<close>

definition ProcessFile :: "Config \<Rightarrow> path option \<Rightarrow> world \<Rightarrow> path \<Rightarrow> ((perror + unit) \<times> world) option" where
  "ProcessFile c tmpPick w filename =
     (case fs w filename of
        None \<Rightarrow> Some (Inl StatFailed, w)
      | Some origInfo \<Rightarrow>
          (case tmpPick of
             None \<Rightarrow> Some (Inl CreateTempFailed, w)
           | Some tmpName \<Rightarrow>
               (if tmpName \<in> dom (fs w) then Some (Inl CreateTempFailed, w)
                else
                  (let w1 = osCreateTemp w tmpName in
                   case processStream c (fileReader (content origInfo)) of
                     None \<Rightarrow> None
                   | Some (Inl e) \<Rightarrow> Some (Inl (StreamFailed e), osRemove w1 tmpName)
                   | Some (Inr (isNoOp, out)) \<Rightarrow>
                       (let w2 = osWrite w1 tmpName out in
                        if isNoOp then Some (Inr (), osRemove w2 tmpName)
                        else Some (Inr (),
                               osRename (preserveAttributes w2 tmpName origInfo)
                                 tmpName filename))))))"

definition VerifyFile :: "Config \<Rightarrow> world \<Rightarrow> path \<Rightarrow> (perror + bool) option" where
  "VerifyFile c w filename =
     (case fs w filename of
        None \<Rightarrow> Some (Inl OpenFailed)
      | Some f \<Rightarrow>
          (case verifyStream c (fileReader (content f)) of
             None \<Rightarrow> None
           | Some (Inl e) \<Rightarrow> Some (Inl (StreamFailed e))
           | Some (Inr valid) \<Rightarrow> Some (Inr valid)))"

section \<open>Reference notions the properties are stated against\<close>

text \<open>
  The whole content held in memory and split at offset \<open>k\<close>: the bytes before \<open>k\<close>
  are written and checksummed in one piece, the bytes from \<open>k\<close> on are the final window.
  The naive reference splits \<open>windowSize\<close> bytes before the end.
\<close>

definition referenceProcess :: "Config \<Rightarrow> nat \<Rightarrow> string \<Rightarrow> bool \<times> string" where
  "referenceProcess c k bytes =
     finalizeWindow c (take k bytes) (crc_update 0 (take k bytes)) (drop k bytes)"

definition referenceVerify :: "Config \<Rightarrow> nat \<Rightarrow> string \<Rightarrow> error + bool" where
  "referenceVerify c k bytes = verifyWindow c (crc_update 0 (take k bytes)) (drop k bytes)"

definition naiveProcess :: "Config \<Rightarrow> string \<Rightarrow> bool \<times> string" where
  "naiveProcess c bytes = referenceProcess c (length bytes - windowSize c) bytes"

definition naiveVerify :: "Config \<Rightarrow> string \<Rightarrow> error + bool" where
  "naiveVerify c bytes = referenceVerify c (length bytes - windowSize c) bytes"

text \<open>
  A reader starts short when its first two reads deliver fewer than \<open>windowSize\<close>
  bytes together and the second does not report the end: the second iteration of the
  loop then slices \<^verbatim>\<open>buffer[:n-windowSize]\<close> out of range.
\<close>

definition shortStart :: "Config \<Rightarrow> reader \<Rightarrow> bool" where
  "shortStart c rd =
     (case Read rd (nat (BufferSize c)) of
        ((c1, e1), rd1) \<Rightarrow>
          (case Read rd1 (nat (BufferSize c) - length c1) of
             ((c2, e2), rd2) \<Rightarrow> length c1 + length c2 < windowSize c \<and> e2 = ErrNil))"

text \<open>
  A marker line at offset \<open>i\<close> of a window, in the words of the pattern: at a line
  start, prefix, key text, eight upper-case hexadecimal digits, suffix, then an optional
  CR and an optional LF, up to a line end.
\<close>

definition markerLineAt :: "CommentStyle \<Rightarrow> string \<Rightarrow> nat \<Rightarrow> bool" where
  "markerLineAt st w i \<longleftrightarrow>
     (i = 0 \<or> (i \<le> length w \<and> w ! (i - 1) = LF)) \<and>
     (\<exists>digits ending rest.
        drop i w = Prefix st @ keyText @ digits @ Suffix st @ ending @ rest
        \<and> length digits = 8 \<and> list_all isUpperHex digits
        \<and> ending \<in> {[], [LF], [CR], [CR, LF]}
        \<and> (rest = [] \<or> hd rest = LF))"

text \<open>One trailing line ending removed, a CRLF as a whole.\<close>

definition stripLineEnding :: "string \<Rightarrow> string" where
  "stripLineEnding xs =
     (if xs \<noteq> [] \<and> last xs = LF then
        (if butlast xs \<noteq> [] \<and> last (butlast xs) = CR then butlast (butlast xs) else butlast xs)
      else xs)"

definition contentPartOf :: "Config \<Rightarrow> string \<Rightarrow> string" where
  "contentPartOf c window =
     (case FindSubmatchIndex (CommentStyle c) window of
        None \<Rightarrow> window
      | Some (m0, m1, g0, g1) \<Rightarrow> take m0 window)"

definition existingCRC :: "Config \<Rightarrow> string \<Rightarrow> 32 word option" where
  "existingCRC c window =
     (case FindSubmatchIndex (CommentStyle c) window of
        None \<Rightarrow> None
      | Some (m0, m1, g0, g1) \<Rightarrow> parseCRC (take (g1 - g0) (drop g0 window)))"

text \<open>Concrete configurations and a concrete file system for the examples.\<close>

definition cfg64 :: Config where
  "cfg64 = \<lparr>CommentStyle = GoStyle, BufferSize = 64\<rparr>"

definition cfg30 :: Config where
  "cfg30 = \<lparr>CommentStyle = GoStyle, BufferSize = 30\<rparr>"

definition world0 :: world where
  "world0 = \<lparr>fs = [''main.go'' \<mapsto> \<lparr>content = ''// FileIntegrity: 00000000'' @ [LF], mode = 420,
                                      uid = 1000, gid = 1000, mtime = 5\<rparr>],
             clock = 9, procUid = 1000, procGid = 1000, chownEffect = (\<lambda>f u g. None),
             trace = []\<rparr>"

text \<open>
  A stamped content of 41 bytes, and a reader that delivers it in reads of 35, 3 and 3
  bytes and then reports the end: the window slides at every step and the marker's digits
  lie across the three reads.
\<close>

definition stampedContent :: string where
  "stampedContent = ''0123456789abc'' @ [LF] @ ''// FileIntegrity: CE68AD26'' @ [LF]"

definition stampedInChunks :: reader where
  "stampedInChunks =
     [(''0123456789abc'' @ [LF] @ ''// FileIntegrity: CE6'', ErrNil), (''8AD'', ErrNil),
      (''26'' @ [LF], ErrNil), ([], ErrEOF)]"

text \<open>Auxiliary notions of the proofs about the loops.\<close>

definition slideLen :: "nat \<Rightarrow> bool \<Rightarrow> nat \<Rightarrow> nat" where
  "slideLen W first k = (if first then (if k > W then k - W else 0) else k - W)"

definition stuck :: "nat \<Rightarrow> wstate \<Rightarrow> bool" where
  "stuck W s \<longleftrightarrow> \<not> eof s \<and> \<not> firstRead s \<and> n s = W \<and> length (buffer s) = W
                   \<and> Read (src s) 0 = (([], ErrNil), src s)"

definition rstuck :: "nat \<Rightarrow> rstate \<Rightarrow> bool" where
  "rstuck W s \<longleftrightarrow> \<not> reof s \<and> \<not> rfirstRead s \<and> rn s = W \<and> length (rbuffer s) = W
                   \<and> Read (rsrc s) 0 = (([], ErrNil), rsrc s)"

text \<open>The reads a script has left, each counted with its bytes.\<close>

definition remaining :: "reader \<Rightarrow> nat" where
  "remaining rd = sum_list (map (\<lambda>(c, e). Suc (length c)) rd)"

text \<open>Eight four-bit digits as one 32-bit value, most significant first.\<close>

definition joinNibbles ::
  "32 word \<Rightarrow> 32 word \<Rightarrow> 32 word \<Rightarrow> 32 word \<Rightarrow> 32 word \<Rightarrow> 32 word \<Rightarrow> 32 word \<Rightarrow> 32 word
     \<Rightarrow> 32 word" where
  "joinNibbles z7 z6 z5 z4 z3 z2 z1 z0 =
     push_bit 24 (push_bit 4 (take_bit 4 z7) OR take_bit 4 z6)
     OR push_bit 16 (push_bit 4 (take_bit 4 z5) OR take_bit 4 z4)
     OR push_bit 8 (push_bit 4 (take_bit 4 z3) OR take_bit 4 z2)
     OR (push_bit 4 (take_bit 4 z1) OR take_bit 4 z0)"

section \<open>The loops: what is written and checksummed before the final window\<close>

lemma crc_update_append: "crc_update (crc_update h a) b = crc_update h (a @ b)"
  by (simp add: crc_update_def)

lemma Read_length: "Read r cap = ((chunk, err), r') \<Longrightarrow> length chunk \<le> cap"
  by (cases r) (auto split: if_splits)

lemma Read_content:
  "Read r cap = ((chunk, err), r') \<Longrightarrow>
     streamContent r = chunk @ (if err = ErrNil then streamContent r' else [])"
  by (cases r) (auto split: if_splits)

text \<open>What one iteration does to the written bytes, the checksum and the buffered bytes.\<close>

lemma take_store_slide:
  assumes "k \<le> m" "m \<le> length buf" "k + length chunk \<le> length buf"
  shows "take (k + length chunk) (store (copyFront buf (m - k) m) k chunk)
           = drop (m - k) (take m buf) @ chunk"
    and "length (store (copyFront buf (m - k) m) k chunk) = length buf"
  using assms by (simp_all add: store_def copyFront_def drop_take)

lemma take_store_plain:
  assumes "m + length chunk \<le> length buf"
  shows "take (m + length chunk) (store buf m chunk) = take m buf @ chunk"
    and "length (store buf m chunk) = length buf"
  using assms by (simp_all add: store_def)

lemma processStep_Inr:
  assumes step: "processStep W s = Inr s1" and le: "n s \<le> length (buffer s)"
  shows "\<exists>chunk err.
           Read (src s) (length (buffer s) - (n s - slideLen W (firstRead s) (n s)))
             = ((chunk, err), src s1)
         \<and> err \<noteq> ErrOther \<and> eof s1 = (err = ErrEOF) \<and> \<not> firstRead s1
         \<and> (firstRead s \<or> W \<le> n s)
         \<and> dst s1 = dst s @ take (slideLen W (firstRead s) (n s)) (buffer s)
         \<and> hasher s1 = crc_update (hasher s) (take (slideLen W (firstRead s) (n s)) (buffer s))
         \<and> take (n s1) (buffer s1)
              = drop (slideLen W (firstRead s) (n s)) (take (n s) (buffer s)) @ chunk
         \<and> n s1 = n s - slideLen W (firstRead s) (n s) + length chunk
         \<and> length (buffer s1) = length (buffer s)
         \<and> n s1 \<le> length (buffer s1)"
proof -
  consider (keep) "firstRead s" "n s \<le> W" | (slide) "W \<le> n s" "firstRead s \<longrightarrow> W < n s"
    using step by (auto simp: processStep_def split: if_splits)
  then show ?thesis
  proof cases
    case keep
    obtain chunk err src' where rd: "Read (src s) (length (buffer s) - n s) = ((chunk, err), src')"
      by (metis surj_pair)
    have ch: "n s + length chunk \<le> length (buffer s)"
      using Read_length [OF rd] le by simp
    from step keep rd le have e: "err \<noteq> ErrOther" and
      s1: "s1 = s\<lparr>firstRead := False, buffer := store (buffer s) (n s) chunk,
                  n := n s + length chunk, eof := (err = ErrEOF), src := src'\<rparr>"
      by (auto simp: processStep_def split: if_splits)
    show ?thesis
      apply (rule exI [of _ chunk], rule exI [of _ err])
      using keep rd e ch take_store_plain [OF ch]
      by (simp add: s1 slideLen_def crc_update_def)
  next
    case slide
    obtain chunk err src' where rd: "Read (src s) (length (buffer s) - W) = ((chunk, err), src')"
      by (metis surj_pair)
    have ch: "W + length chunk \<le> length (buffer s)"
      using Read_length [OF rd] le slide by simp
    have len: "length (copyFront (buffer s) (n s - W) (n s)) = length (buffer s)"
      using le slide by (simp add: copyFront_def)
    from step slide rd le len have e: "err \<noteq> ErrOther" and
      s1: "s1 = s\<lparr>dst := dst s @ take (n s - W) (buffer s),
                  hasher := crc_update (hasher s) (take (n s - W) (buffer s)),
                  buffer := store (copyFront (buffer s) (n s - W) (n s)) W chunk,
                  n := W + length chunk, firstRead := False,
                  eof := (err = ErrEOF), src := src'\<rparr>"
      by (auto simp: processStep_def Let_def split: if_splits)
    have sl: "slideLen W (firstRead s) (n s) = n s - W"
      using slide by (simp add: slideLen_def)
    show ?thesis
      apply (rule exI [of _ chunk], rule exI [of _ err])
      using slide rd e ch take_store_slide [OF slide(1) le ch]
      by (simp add: s1 sl)
  qed
qed

lemma processLoop_partial:
  assumes "processLoop W s = Some (Inr s')" and "n s \<le> length (buffer s)"
  shows "\<exists>pre. dst s' = dst s @ pre \<and> hasher s' = crc_update (hasher s) pre
           \<and> pre @ take (n s') (buffer s')
                = take (n s) (buffer s) @ (if eof s then [] else streamContent (src s))
           \<and> n s' \<le> length (buffer s') \<and> length (buffer s') = length (buffer s)"
proof -
  have "processLoop W s = Some y \<Longrightarrow>
        n s \<le> length (buffer s) \<longrightarrow> (\<forall>s'. y = Inr s' \<longrightarrow>
          (\<exists>pre. dst s' = dst s @ pre \<and> hasher s' = crc_update (hasher s) pre
           \<and> pre @ take (n s') (buffer s')
                = take (n s) (buffer s) @ (if eof s then [] else streamContent (src s))
           \<and> n s' \<le> length (buffer s') \<and> length (buffer s') = length (buffer s)))" for y
  proof (induction W s y rule: processLoop.raw_induct [rotated 1, consumes 1])
    case (1 loop W s y)
    show ?case
    proof (intro impI allI)
      fix s' assume le: "n s \<le> length (buffer s)" and y: "y = Inr s'"
      show "\<exists>pre. dst s' = dst s @ pre \<and> hasher s' = crc_update (hasher s) pre
           \<and> pre @ take (n s') (buffer s')
                = take (n s) (buffer s) @ (if eof s then [] else streamContent (src s))
           \<and> n s' \<le> length (buffer s') \<and> length (buffer s') = length (buffer s)"
      proof (cases "eof s")
        case True
        with 1(2) y have "s' = s" by simp
        with True le show ?thesis by (intro exI [of _ "[]"]) (simp add: crc_update_def)
      next
        case False
        from 1(2) False y obtain s1 where st: "processStep W s = Inr s1" and lp: "loop W s1 = Some (Inr s')"
          by (auto split: sum.splits)
        from processStep_Inr [OF st le] obtain chunk err where
          rd: "Read (src s) (length (buffer s) - (n s - slideLen W (firstRead s) (n s))) = ((chunk, err), src s1)"
          and e: "eof s1 = (err = ErrEOF)" "err \<noteq> ErrOther"
          and d: "dst s1 = dst s @ take (slideLen W (firstRead s) (n s)) (buffer s)"
          and h: "hasher s1 = crc_update (hasher s) (take (slideLen W (firstRead s) (n s)) (buffer s))"
          and t: "take (n s1) (buffer s1) = drop (slideLen W (firstRead s) (n s)) (take (n s) (buffer s)) @ chunk"
          and l: "length (buffer s1) = length (buffer s)" "n s1 \<le> length (buffer s1)"
          by blast
        have "\<exists>pre. dst s' = dst s1 @ pre \<and> hasher s' = crc_update (hasher s1) pre
           \<and> pre @ take (n s') (buffer s')
                = take (n s1) (buffer s1) @ (if eof s1 then [] else streamContent (src s1))
           \<and> n s' \<le> length (buffer s') \<and> length (buffer s') = length (buffer s1)"
          using 1(1) [OF lp] l(2) by simp
        then obtain pre where
          p: "dst s' = dst s1 @ pre" "hasher s' = crc_update (hasher s1) pre"
             "pre @ take (n s') (buffer s') = take (n s1) (buffer s1) @ (if eof s1 then [] else streamContent (src s1))"
             "n s' \<le> length (buffer s')" "length (buffer s') = length (buffer s1)"
          by blast
        have sl: "slideLen W (firstRead s) (n s) \<le> n s" by (simp add: slideLen_def)
        have sc: "streamContent (src s) = chunk @ (if eof s1 then [] else streamContent (src s1))"
          using Read_content [OF rd] e by (cases err) auto
        have tk: "take (slideLen W (firstRead s) (n s)) (buffer s) @ drop (slideLen W (firstRead s) (n s)) (take (n s) (buffer s)) = take (n s) (buffer s)"
          using sl by (metis append_take_drop_id min.absorb1 take_take)
        show ?thesis
          apply (rule exI [of _ "take (slideLen W (firstRead s) (n s)) (buffer s) @ pre"])
          using p d h t l sc tk False by (simp add: crc_update_append)
      qed
    qed
  qed
  with assms show ?thesis by blast
qed

lemma Read_fileReader:
  "C \<noteq> [] \<Longrightarrow> Read (fileReader C) cap = ((take cap C, ErrNil), fileReader (drop cap C))"
  "0 < cap \<Longrightarrow> Read (fileReader []) cap = (([], ErrEOF), fileReader [])"
  by (auto simp: fileReader_def)

lemma processStep_total:
  assumes "firstRead s \<or> W \<le> n s" and "n s \<le> length (buffer s)"
    and "\<And>cap. snd (fst (Read (src s) cap)) \<noteq> ErrOther"
  shows "\<exists>s1. processStep W s = Inr s1"
proof -
  have len: "length (copyFront (buffer s) (n s - W) (n s)) = length (buffer s)"
    using assms(2) by (simp add: copyFront_def)
  show ?thesis
    using assms(1,2) assms(3) [of "length (buffer s) - n s"] assms(3) [of "length (buffer s) - W"]
      assms(3) [of "length (buffer s) - (n s - (n s - W))"] len
    by (auto simp: processStep_def Let_def split: prod.splits)
qed

lemma fileReader_no_error: "snd (fst (Read (fileReader R) cap)) \<noteq> ErrOther"
  by (auto simp: fileReader_def)

lemma processLoop_file_returns:
  assumes "\<not> eof s" "W \<le> n s" "firstRead s \<longrightarrow> W < n s" "n s \<le> length (buffer s)"
    and "W < length (buffer s)" "src s = fileReader R"
  shows "\<exists>s'. processLoop W s = Some (Inr s') \<and> n s' = W"
  using assms
proof (induction "length R" arbitrary: s R rule: less_induct)
  case less
  from processStep_total [of s W] less.prems fileReader_no_error
  obtain s1 where st: "processStep W s = Inr s1" by auto
  have sl: "slideLen W (firstRead s) (n s) = n s - W"
    using less.prems by (auto simp: slideLen_def)
  from processStep_Inr [OF st less.prems(4)] sl less.prems obtain chunk err where
    rd: "Read (fileReader R) (length (buffer s) - W) = ((chunk, err), src s1)"
    and e: "eof s1 = (err = ErrEOF)" "\<not> firstRead s1"
    and n1: "n s1 = W + length chunk" "length (buffer s1) = length (buffer s)"
            "n s1 \<le> length (buffer s1)"
    by auto
  have lp: "processLoop W s = processLoop W s1"
    using st less.prems(1) by (subst processLoop.simps) simp
  show ?case
  proof (cases "R = []")
    case True
    with rd less.prems(5) have "err = ErrEOF" "chunk = []"
      by (auto simp: Read_fileReader(2))
    with e n1 have "processLoop W s1 = Some (Inr s1)" "n s1 = W"
      by (subst processLoop.simps, simp_all)
    with lp show ?thesis by simp
  next
    case False
    with rd have r: "err = ErrNil" "src s1 = fileReader (drop (length (buffer s) - W) R)"
      by (auto simp: Read_fileReader(1))
    have "length (drop (length (buffer s) - W) R) < length R"
      using False less.prems(5) by (cases R) auto
    from less.hyps [OF this, of s1] r e n1 less.prems(5)
    have "\<exists>s'. processLoop W s1 = Some (Inr s') \<and> n s' = W" by simp
    with lp show ?thesis by simp
  qed
qed

lemma processLoop_small:
  assumes "\<not> eof s" "firstRead s" "n s \<le> W" "n s < length (buffer s)" "src s = []"
  shows "\<exists>s'. processLoop W s = Some (Inr s') \<and> n s' = n s"
proof -
  have rd: "Read [] (length (buffer s) - n s) = (([], ErrEOF), [])"
    using assms(4) by simp
  have "processStep W s = Inr (s\<lparr>firstRead := False, buffer := store (buffer s) (n s) [],
                                     n := n s, eof := True, src := []\<rparr>)"
    using assms rd by (simp add: processStep_def)
  then show ?thesis
    using assms(1) by (subst processLoop.simps, simp, subst processLoop.simps, simp)
qed

lemma stuck_step: "stuck W s \<Longrightarrow> \<exists>s1. processStep W s = Inr s1 \<and> stuck W s1"
  by (auto simp: stuck_def processStep_def copyFront_def store_def)

lemma processLoop_stuck:
  assumes "stuck W s" shows "processLoop W s = None"
proof -
  have "processLoop W s = Some y \<Longrightarrow> \<not> stuck W s" for y
  proof (induction W s y rule: processLoop.raw_induct [rotated 1, consumes 1])
    case (1 loop W s y)
    show ?case
    proof
      assume a: "stuck W s"
      then obtain s1 where "processStep W s = Inr s1" "stuck W s1"
        using stuck_step by blast
      with 1(2) a have "loop W s1 = Some y" by (simp add: stuck_def)
      from 1(1) [OF this] \<open>stuck W s1\<close> show False by simp
    qed
  qed
  with assms show ?thesis by (cases "processLoop W s") auto
qed

lemma verifyStep_Inr:
  assumes step: "verifyStep W s = Inr s1" and le: "rn s \<le> length (rbuffer s)"
  shows "\<exists>chunk err.
           Read (rsrc s) (length (rbuffer s) - (rn s - slideLen W (rfirstRead s) (rn s)))
             = ((chunk, err), rsrc s1)
         \<and> err \<noteq> ErrOther \<and> reof s1 = (err = ErrEOF) \<and> \<not> rfirstRead s1
         \<and> (rfirstRead s \<or> W \<le> rn s)
         \<and> rhasher s1 = crc_update (rhasher s) (take (slideLen W (rfirstRead s) (rn s)) (rbuffer s))
         \<and> take (rn s1) (rbuffer s1)
              = drop (slideLen W (rfirstRead s) (rn s)) (take (rn s) (rbuffer s)) @ chunk
         \<and> rn s1 = rn s - slideLen W (rfirstRead s) (rn s) + length chunk
         \<and> length (rbuffer s1) = length (rbuffer s)
         \<and> rn s1 \<le> length (rbuffer s1)"
proof -
  consider (keep) "rfirstRead s" "rn s \<le> W" | (slide) "W \<le> rn s" "rfirstRead s \<longrightarrow> W < rn s"
    using step by (auto simp: verifyStep_def split: if_splits)
  then show ?thesis
  proof cases
    case keep
    obtain chunk err src' where rd: "Read (rsrc s) (length (rbuffer s) - rn s) = ((chunk, err), src')"
      by (metis surj_pair)
    have ch: "rn s + length chunk \<le> length (rbuffer s)"
      using Read_length [OF rd] le by simp
    from step keep rd le have e: "err \<noteq> ErrOther" and
      s1: "s1 = s\<lparr>rfirstRead := False, rbuffer := store (rbuffer s) (rn s) chunk,
                  rn := rn s + length chunk, reof := (err = ErrEOF), rsrc := src'\<rparr>"
      by (auto simp: verifyStep_def split: if_splits)
    show ?thesis
      apply (rule exI [of _ chunk], rule exI [of _ err])
      using keep rd e ch take_store_plain [OF ch]
      by (simp add: s1 slideLen_def crc_update_def)
  next
    case slide
    obtain chunk err src' where rd: "Read (rsrc s) (length (rbuffer s) - W) = ((chunk, err), src')"
      by (metis surj_pair)
    have ch: "W + length chunk \<le> length (rbuffer s)"
      using Read_length [OF rd] le slide by simp
    have len: "length (copyFront (rbuffer s) (rn s - W) (rn s)) = length (rbuffer s)"
      using le slide by (simp add: copyFront_def)
    from step slide rd le len have e: "err \<noteq> ErrOther" and
      s1: "s1 = s\<lparr>rhasher := crc_update (rhasher s) (take (rn s - W) (rbuffer s)),
                  rbuffer := store (copyFront (rbuffer s) (rn s - W) (rn s)) W chunk,
                  rn := W + length chunk, rfirstRead := False,
                  reof := (err = ErrEOF), rsrc := src'\<rparr>"
      by (auto simp: verifyStep_def Let_def split: if_splits)
    have sl: "slideLen W (rfirstRead s) (rn s) = rn s - W"
      using slide by (simp add: slideLen_def)
    show ?thesis
      apply (rule exI [of _ chunk], rule exI [of _ err])
      using slide rd e ch take_store_slide [OF slide(1) le ch]
      by (simp add: s1 sl)
  qed
qed

lemma verifyLoop_partial:
  assumes "verifyLoop W s = Some (Inr s')" and "rn s \<le> length (rbuffer s)"
  shows "\<exists>pre. rhasher s' = crc_update (rhasher s) pre
           \<and> pre @ take (rn s') (rbuffer s')
                = take (rn s) (rbuffer s) @ (if reof s then [] else streamContent (rsrc s))
           \<and> rn s' \<le> length (rbuffer s') \<and> length (rbuffer s') = length (rbuffer s)"
proof -
  have "verifyLoop W s = Some y \<Longrightarrow>
        rn s \<le> length (rbuffer s) \<longrightarrow> (\<forall>s'. y = Inr s' \<longrightarrow>
          (\<exists>pre. rhasher s' = crc_update (rhasher s) pre
           \<and> pre @ take (rn s') (rbuffer s')
                = take (rn s) (rbuffer s) @ (if reof s then [] else streamContent (rsrc s))
           \<and> rn s' \<le> length (rbuffer s') \<and> length (rbuffer s') = length (rbuffer s)))" for y
  proof (induction W s y rule: verifyLoop.raw_induct [rotated 1, consumes 1])
    case (1 loop W s y)
    show ?case
    proof (intro impI allI)
      fix s' assume le: "rn s \<le> length (rbuffer s)" and y: "y = Inr s'"
      show "\<exists>pre. rhasher s' = crc_update (rhasher s) pre
           \<and> pre @ take (rn s') (rbuffer s')
                = take (rn s) (rbuffer s) @ (if reof s then [] else streamContent (rsrc s))
           \<and> rn s' \<le> length (rbuffer s') \<and> length (rbuffer s') = length (rbuffer s)"
      proof (cases "reof s")
        case True
        with 1(2) y have "s' = s" by simp
        with True le show ?thesis by (intro exI [of _ "[]"]) (simp add: crc_update_def)
      next
        case False
        from 1(2) False y obtain s1 where st: "verifyStep W s = Inr s1" and lp: "loop W s1 = Some (Inr s')"
          by (auto split: sum.splits)
        from verifyStep_Inr [OF st le] obtain chunk err where
          rd: "Read (rsrc s) (length (rbuffer s) - (rn s - slideLen W (rfirstRead s) (rn s))) = ((chunk, err), rsrc s1)"
          and e: "reof s1 = (err = ErrEOF)" "err \<noteq> ErrOther"
          and h: "rhasher s1 = crc_update (rhasher s) (take (slideLen W (rfirstRead s) (rn s)) (rbuffer s))"
          and t: "take (rn s1) (rbuffer s1) = drop (slideLen W (rfirstRead s) (rn s)) (take (rn s) (rbuffer s)) @ chunk"
          and l: "length (rbuffer s1) = length (rbuffer s)" "rn s1 \<le> length (rbuffer s1)"
          by blast
        have "\<exists>pre. rhasher s' = crc_update (rhasher s1) pre
           \<and> pre @ take (rn s') (rbuffer s')
                = take (rn s1) (rbuffer s1) @ (if reof s1 then [] else streamContent (rsrc s1))
           \<and> rn s' \<le> length (rbuffer s') \<and> length (rbuffer s') = length (rbuffer s1)"
          using 1(1) [OF lp] l(2) by simp
        then obtain pre where
          p: "rhasher s' = crc_update (rhasher s1) pre"
             "pre @ take (rn s') (rbuffer s') = take (rn s1) (rbuffer s1) @ (if reof s1 then [] else streamContent (rsrc s1))"
             "rn s' \<le> length (rbuffer s')" "length (rbuffer s') = length (rbuffer s1)"
          by blast
        have sl: "slideLen W (rfirstRead s) (rn s) \<le> rn s" by (simp add: slideLen_def)
        have sc: "streamContent (rsrc s) = chunk @ (if reof s1 then [] else streamContent (rsrc s1))"
          using Read_content [OF rd] e by (cases err) auto
        have tk: "take (slideLen W (rfirstRead s) (rn s)) (rbuffer s) @ drop (slideLen W (rfirstRead s) (rn s)) (take (rn s) (rbuffer s)) = take (rn s) (rbuffer s)"
          using sl by (metis append_take_drop_id min.absorb1 take_take)
        show ?thesis
          apply (rule exI [of _ "take (slideLen W (rfirstRead s) (rn s)) (rbuffer s) @ pre"])
          using p h t l sc tk False by (simp add: crc_update_append)
      qed
    qed
  qed
  with assms show ?thesis by blast
qed

lemma verifyStep_total:
  assumes "rfirstRead s \<or> W \<le> rn s" and "rn s \<le> length (rbuffer s)"
    and "\<And>cap. snd (fst (Read (rsrc s) cap)) \<noteq> ErrOther"
  shows "\<exists>s1. verifyStep W s = Inr s1"
proof -
  have len: "length (copyFront (rbuffer s) (rn s - W) (rn s)) = length (rbuffer s)"
    using assms(2) by (simp add: copyFront_def)
  show ?thesis
    using assms(1,2) assms(3) [of "length (rbuffer s) - rn s"] assms(3) [of "length (rbuffer s) - W"]
      assms(3) [of "length (rbuffer s) - (rn s - (rn s - W))"] len
    by (auto simp: verifyStep_def Let_def split: prod.splits)
qed

lemma verifyLoop_file_returns:
  assumes "\<not> reof s" "W \<le> rn s" "rfirstRead s \<longrightarrow> W < rn s" "rn s \<le> length (rbuffer s)"
    and "W < length (rbuffer s)" "rsrc s = fileReader R"
  shows "\<exists>s'. verifyLoop W s = Some (Inr s') \<and> rn s' = W"
  using assms
proof (induction "length R" arbitrary: s R rule: less_induct)
  case less
  from verifyStep_total [of s W] less.prems fileReader_no_error
  obtain s1 where st: "verifyStep W s = Inr s1" by auto
  have sl: "slideLen W (rfirstRead s) (rn s) = rn s - W"
    using less.prems by (auto simp: slideLen_def)
  from verifyStep_Inr [OF st less.prems(4)] sl less.prems obtain chunk err where
    rd: "Read (fileReader R) (length (rbuffer s) - W) = ((chunk, err), rsrc s1)"
    and e: "reof s1 = (err = ErrEOF)" "\<not> rfirstRead s1"
    and n1: "rn s1 = W + length chunk" "length (rbuffer s1) = length (rbuffer s)"
            "rn s1 \<le> length (rbuffer s1)"
    by auto
  have lp: "verifyLoop W s = verifyLoop W s1"
    using st less.prems(1) by (subst verifyLoop.simps) simp
  show ?case
  proof (cases "R = []")
    case True
    with rd less.prems(5) have "err = ErrEOF" "chunk = []"
      by (auto simp: Read_fileReader(2))
    with e n1 have "verifyLoop W s1 = Some (Inr s1)" "rn s1 = W"
      by (subst verifyLoop.simps, simp_all)
    with lp show ?thesis by simp
  next
    case False
    with rd have r: "err = ErrNil" "rsrc s1 = fileReader (drop (length (rbuffer s) - W) R)"
      by (auto simp: Read_fileReader(1))
    have "length (drop (length (rbuffer s) - W) R) < length R"
      using False less.prems(5) by (cases R) auto
    from less.hyps [OF this, of s1] r e n1 less.prems(5)
    have "\<exists>s'. verifyLoop W s1 = Some (Inr s') \<and> rn s' = W" by simp
    with lp show ?thesis by simp
  qed
qed

lemma verifyLoop_small:
  assumes "\<not> reof s" "rfirstRead s" "rn s \<le> W" "rn s < length (rbuffer s)" "rsrc s = []"
  shows "\<exists>s'. verifyLoop W s = Some (Inr s') \<and> rn s' = rn s"
proof -
  have rd: "Read [] (length (rbuffer s) - rn s) = (([], ErrEOF), [])"
    using assms(4) by simp
  have "verifyStep W s = Inr (s\<lparr>rfirstRead := False, rbuffer := store (rbuffer s) (rn s) [],
                                     rn := rn s, reof := True, rsrc := []\<rparr>)"
    using assms rd by (simp add: verifyStep_def)
  then show ?thesis
    using assms(1) by (subst verifyLoop.simps, simp, subst verifyLoop.simps, simp)
qed

lemma rstuck_step: "rstuck W s \<Longrightarrow> \<exists>s1. verifyStep W s = Inr s1 \<and> rstuck W s1"
  by (auto simp: rstuck_def verifyStep_def copyFront_def store_def)

lemma verifyLoop_stuck:
  assumes "rstuck W s" shows "verifyLoop W s = None"
proof -
  have "verifyLoop W s = Some y \<Longrightarrow> \<not> rstuck W s" for y
  proof (induction W s y rule: verifyLoop.raw_induct [rotated 1, consumes 1])
    case (1 loop W s y)
    show ?case
    proof
      assume a: "rstuck W s"
      then obtain s1 where "verifyStep W s = Inr s1" "rstuck W s1"
        using rstuck_step by blast
      with 1(2) a have "loop W s1 = Some y" by (simp add: rstuck_def)
      from 1(1) [OF this] \<open>rstuck W s1\<close> show False by simp
    qed
  qed
  with assms show ?thesis by (cases "verifyLoop W s") auto
qed

lemma streamContent_fileReader: "streamContent (fileReader C) = C"
  by (simp add: fileReader_def)

lemma split_by_length:
  assumes "pre @ win = C" "length win = m"
  shows "pre = take (length C - m) C" "win = drop (length C - m) C"
  using assms by auto

lemma Read_fileReader_0: "Read (fileReader R) 0 = (([], ErrNil), fileReader R)"
  by (auto simp: fileReader_def)

lemma processStream_file:
  assumes ne: "C \<noteq> []" and big: "int (windowSize c) < BufferSize c"
  shows "processStream c (fileReader C) = Some (Inr (naiveProcess c C))"
proof -
  define W where "W = windowSize c"
  define B where "B = nat (BufferSize c)"
  define s0 where "s0 = \<lparr>buffer = store (replicate B (CHR 0x00)) 0 (take B C), n = length (take B C),
      firstRead = True, eof = False, src = fileReader (drop B C), dst = [], hasher = 0\<rparr>"
  have WB: "W < B" using big by (simp add: W_def B_def)
  have lenb: "length (buffer s0) = B" by (simp add: s0_def store_def)
  have n0: "n s0 = min B (length C)" by (simp add: s0_def min.commute)
  have v0: "take (n s0) (buffer s0) = take B C"
    by (cases "length C \<le> B") (simp_all add: s0_def store_def)
  have "\<exists>s'. processLoop W s0 = Some (Inr s') \<and> n s' = min W (length C)"
  proof (cases "length C \<le> W")
    case True
    then have "src s0 = []" using WB by (simp add: s0_def fileReader_def)
    from processLoop_small [of s0 W, OF _ _ _ _ this] True WB n0 lenb
    show ?thesis by (simp add: s0_def)
  next
    case False
    from processLoop_file_returns [of s0 W "drop B C"] False WB n0 lenb
    show ?thesis by (simp add: s0_def)
  qed
  then obtain s' where lp: "processLoop W s0 = Some (Inr s')" and n': "n s' = min W (length C)"
    by blast
  from processLoop_partial [OF lp] n0 lenb obtain pre where
    p: "dst s' = dst s0 @ pre" "hasher s' = crc_update (hasher s0) pre"
       "pre @ take (n s') (buffer s') = take (n s0) (buffer s0) @ (if eof s0 then [] else streamContent (src s0))"
       "n s' \<le> length (buffer s')"
    by auto
  have C: "pre @ take (n s') (buffer s') = C"
    using p(3) v0 by (simp add: s0_def streamContent_fileReader)
  have lw: "length (take (n s') (buffer s')) = min W (length C)"
    using p(4) n' by simp
  have k: "length C - min W (length C) = length C - W" by simp
  have pre: "pre = take (length C - W) C" and win: "take (n s') (buffer s') = drop (length C - W) C"
    using split_by_length [OF C lw] k by simp_all
  have rd: "Read (fileReader C) B = ((take B C, ErrNil), fileReader (drop B C))"
    using ne by (rule Read_fileReader(1))
  have chunk: "take B C \<noteq> []" "min (length C) B \<noteq> 0" using ne WB by (cases C; auto)+
  show ?thesis
    using big rd chunk lp p(1,2) pre win
    by (cases "length C \<le> B")
      (simp_all add: processStream_def Let_def B_def [symmetric] W_def [symmetric] s0_def
        naiveProcess_def referenceProcess_def)
qed

lemma processStream_any:
  assumes run: "processStream c rd = Some (Inr res)"
    and first: "fst (fst (Read rd (nat (BufferSize c)))) \<noteq> []"
  shows "\<exists>k \<le> length (streamContent rd). res = referenceProcess c k (streamContent rd)"
proof -
  define W where "W = windowSize c"
  define B where "B = nat (BufferSize c)"
  obtain chunk err rd' where rd: "Read rd B = ((chunk, err), rd')" by (metis surj_pair)
  define s0 where "s0 = \<lparr>buffer = store (replicate B (CHR 0x00)) 0 chunk, n = length chunk,
      firstRead = True, eof = (err = ErrEOF), src = rd', dst = [], hasher = 0\<rparr>"
  have ch: "chunk \<noteq> []" using first rd by (simp add: B_def)
  have chl: "length chunk \<le> B" using Read_length [OF rd] .
  from run rd ch obtain s' where e: "err \<noteq> ErrOther" and lp: "processLoop W s0 = Some (Inr s')"
    and res: "res = finalizeWindow c (dst s') (hasher s') (take (n s') (buffer s'))"
    by (auto simp: processStream_def Let_def B_def [symmetric] W_def [symmetric] s0_def [symmetric]
        split: if_splits option.splits sum.splits)
  have lenb: "length (buffer s0) = B" using chl by (simp add: s0_def store_def)
  have v0: "take (n s0) (buffer s0) = chunk" by (simp add: s0_def store_def)
  from processLoop_partial [OF lp] chl lenb obtain pre where
    p: "dst s' = dst s0 @ pre" "hasher s' = crc_update (hasher s0) pre"
       "pre @ take (n s') (buffer s') = take (n s0) (buffer s0) @ (if eof s0 then [] else streamContent (src s0))"
    by (auto simp: s0_def)
  have "streamContent rd = chunk @ (if err = ErrNil then streamContent rd' else [])"
    using Read_content [OF rd] .
  with e have sc: "streamContent rd = chunk @ (if eof s0 then [] else streamContent (src s0))"
    by (cases err) (auto simp: s0_def)
  have C: "pre @ take (n s') (buffer s') = streamContent rd"
    using p(3) v0 sc by simp
  then have "pre = take (length pre) (streamContent rd)"
    and "take (n s') (buffer s') = drop (length pre) (streamContent rd)"
    and "length pre \<le> length (streamContent rd)"
    by (metis append_eq_conv_conj, metis append_eq_conv_conj, metis length_append le_add1)
  with res p(1,2) show ?thesis
    by (intro exI [of _ "length pre"]) (simp add: referenceProcess_def s0_def)
qed

lemma processStream_diverges:
  assumes "BufferSize c = int (windowSize c)" and "windowSize c \<le> length C"
  shows "processStream c (fileReader C) = None"
proof -
  define W where "W = windowSize c"
  define s0 where "s0 = \<lparr>buffer = store (replicate W (CHR 0x00)) 0 (take W C), n = length (take W C),
      firstRead = True, eof = False, src = fileReader (drop W C), dst = [], hasher = 0\<rparr>"
  have Wpos: "0 < W" by (simp add: W_def windowSize_def)
  then have ne: "C \<noteq> []" using assms(2) by (auto simp: W_def)
  have rd: "Read (fileReader C) W = ((take W C, ErrNil), fileReader (drop W C))"
    using ne by (rule Read_fileReader(1))
  have n0: "n s0 = W" using assms(2) by (simp add: s0_def W_def)
  have lenb: "length (buffer s0) = W" using assms(2) by (simp add: s0_def store_def W_def)
  have "\<exists>s1. processStep W s0 = Inr s1 \<and> stuck W s1"
    using n0 lenb Read_fileReader_0 [of "drop W C"]
    by (simp add: processStep_def stuck_def s0_def store_def)
  then obtain s1 where "processStep W s0 = Inr s1" "stuck W s1" by blast
  then have "processLoop W s0 = None"
    using processLoop_stuck [of W s1] by (subst processLoop.simps) (simp add: s0_def)
  moreover have "take W C \<noteq> []" using ne Wpos by (cases C) auto
  ultimately show ?thesis
    using assms(1) rd
    by (simp add: processStream_def Let_def W_def [symmetric] s0_def)
qed

lemma processStep_errors: "processStep W s = Inl e \<Longrightarrow> e = SlicePanic \<or> e = ReadError"
  by (auto simp: processStep_def Let_def split: if_splits prod.splits)

lemma verifyStep_errors: "verifyStep W s = Inl e \<Longrightarrow> e = SlicePanic \<or> e = ReadError"
  by (auto simp: verifyStep_def Let_def split: if_splits prod.splits)

lemma processLoop_errors:
  assumes "processLoop W s = Some (Inl e)" shows "e = SlicePanic \<or> e = ReadError"
proof -
  have "processLoop W s = Some y \<Longrightarrow> \<forall>e. y = Inl e \<longrightarrow> e = SlicePanic \<or> e = ReadError" for y
  proof (induction W s y rule: processLoop.raw_induct [rotated 1, consumes 1])
    case (1 loop W s y)
    then show ?case
      by (auto split: if_splits sum.splits dest: processStep_errors)
  qed
  with assms show ?thesis by blast
qed

lemma verifyLoop_errors:
  assumes "verifyLoop W s = Some (Inl e)" shows "e = SlicePanic \<or> e = ReadError"
proof -
  have "verifyLoop W s = Some y \<Longrightarrow> \<forall>e. y = Inl e \<longrightarrow> e = SlicePanic \<or> e = ReadError" for y
  proof (induction W s y rule: verifyLoop.raw_induct [rotated 1, consumes 1])
    case (1 loop W s y)
    then show ?case
      by (auto split: if_splits sum.splits dest: verifyStep_errors)
  qed
  with assms show ?thesis by blast
qed

lemma verifyStream_file:
  assumes ne: "C \<noteq> []" and big: "int (windowSize c) < BufferSize c"
  shows "verifyStream c (fileReader C) = Some (naiveVerify c C)"
proof -
  define W where "W = windowSize c"
  define B where "B = nat (BufferSize c)"
  define s0 where "s0 = \<lparr>rbuffer = store (replicate B (CHR 0x00)) 0 (take B C), rn = length (take B C),
      rfirstRead = True, reof = False, rsrc = fileReader (drop B C), rhasher = 0\<rparr>"
  have WB: "W < B" using big by (simp add: W_def B_def)
  have lenb: "length (rbuffer s0) = B" by (simp add: s0_def store_def)
  have n0: "rn s0 = min B (length C)" by (simp add: s0_def min.commute)
  have v0: "take (rn s0) (rbuffer s0) = take B C"
    by (cases "length C \<le> B") (simp_all add: s0_def store_def)
  have "\<exists>s'. verifyLoop W s0 = Some (Inr s') \<and> rn s' = min W (length C)"
  proof (cases "length C \<le> W")
    case True
    then have "rsrc s0 = []" using WB by (simp add: s0_def fileReader_def)
    from verifyLoop_small [of s0 W, OF _ _ _ _ this] True WB n0 lenb
    show ?thesis by (simp add: s0_def)
  next
    case False
    from verifyLoop_file_returns [of s0 W "drop B C"] False WB n0 lenb
    show ?thesis by (simp add: s0_def)
  qed
  then obtain s' where lp: "verifyLoop W s0 = Some (Inr s')" and n': "rn s' = min W (length C)"
    by blast
  from verifyLoop_partial [OF lp] n0 lenb obtain pre where
    p: "rhasher s' = crc_update (rhasher s0) pre"
       "pre @ take (rn s') (rbuffer s') = take (rn s0) (rbuffer s0) @ (if reof s0 then [] else streamContent (rsrc s0))"
       "rn s' \<le> length (rbuffer s')"
    by auto
  have C: "pre @ take (rn s') (rbuffer s') = C"
    using p(2) v0 by (simp add: s0_def streamContent_fileReader)
  have lw: "length (take (rn s') (rbuffer s')) = min W (length C)"
    using p(3) n' by simp
  have k: "length C - min W (length C) = length C - W" by simp
  have pre: "pre = take (length C - W) C" and win: "take (rn s') (rbuffer s') = drop (length C - W) C"
    using split_by_length [OF C lw] k by simp_all
  have rd: "Read (fileReader C) B = ((take B C, ErrNil), fileReader (drop B C))"
    using ne by (rule Read_fileReader(1))
  have chunk: "take B C \<noteq> []" using ne WB by (cases C) auto
  show ?thesis
    using big rd chunk lp p(1) pre win
    by (cases "length C \<le> B")
      (simp_all add: verifyStream_def Let_def B_def [symmetric] W_def [symmetric] s0_def
        naiveVerify_def referenceVerify_def)
qed

lemma processStream_any_full:
  assumes run: "processStream c rd = Some x"
    and first: "fst (fst (Read rd (nat (BufferSize c)))) \<noteq> []"
  shows "x = Inl SlicePanic \<or> x = Inl ReadError
         \<or> (\<exists>k \<le> length (streamContent rd). x = Inr (referenceProcess c k (streamContent rd)))"
proof (cases x)
  case (Inr res)
  with processStream_any [OF run [unfolded Inr] first] show ?thesis by simp
next
  case (Inl e)
  define W where "W = windowSize c"
  define B where "B = nat (BufferSize c)"
  obtain chunk err rd' where rd: "Read rd B = ((chunk, err), rd')" by (metis surj_pair)
  define s0 where "s0 = \<lparr>buffer = store (replicate B (CHR 0x00)) 0 chunk, n = length chunk,
      firstRead = True, eof = (err = ErrEOF), src = rd', dst = [], hasher = 0\<rparr>"
  have ch: "chunk \<noteq> []" using first rd by (simp add: B_def)
  have chl: "length chunk \<le> B" using Read_length [OF rd] .
  have nonneg: "\<not> BufferSize c < 0" using chl ch by (cases "BufferSize c < 0") (auto simp: B_def)
  show ?thesis
  proof (cases "err = ErrOther")
    case True
    with run rd nonneg show ?thesis
      by (simp add: processStream_def Let_def B_def [symmetric])
  next
    case False
    with run rd ch nonneg Inl have "processLoop W s0 = Some (Inl e)"
      by (auto simp: processStream_def Let_def B_def [symmetric] W_def [symmetric] s0_def [symmetric]
          split: option.splits sum.splits)
    from processLoop_errors [OF this] Inl show ?thesis by auto
  qed
qed

lemma verifyStream_diverges:
  assumes "BufferSize c = int (windowSize c)" and "windowSize c \<le> length C"
  shows "verifyStream c (fileReader C) = None"
proof -
  define W where "W = windowSize c"
  define s0 where "s0 = \<lparr>rbuffer = store (replicate W (CHR 0x00)) 0 (take W C), rn = length (take W C),
      rfirstRead = True, reof = False, rsrc = fileReader (drop W C), rhasher = 0\<rparr>"
  have Wpos: "0 < W" by (simp add: W_def windowSize_def)
  then have ne: "C \<noteq> []" using assms(2) by (auto simp: W_def)
  have rd: "Read (fileReader C) W = ((take W C, ErrNil), fileReader (drop W C))"
    using ne by (rule Read_fileReader(1))
  have n0: "rn s0 = W" using assms(2) by (simp add: s0_def W_def)
  have lenb: "length (rbuffer s0) = W" using assms(2) by (simp add: s0_def store_def W_def)
  have "\<exists>s1. verifyStep W s0 = Inr s1 \<and> rstuck W s1"
    using n0 lenb Read_fileReader_0 [of "drop W C"]
    by (simp add: verifyStep_def rstuck_def s0_def store_def)
  then obtain s1 where "verifyStep W s0 = Inr s1" "rstuck W s1" by blast
  then have "verifyLoop W s0 = None"
    using verifyLoop_stuck [of W s1] by (subst verifyLoop.simps) (simp add: s0_def)
  moreover have "take W C \<noteq> []" using ne Wpos by (cases C) auto
  ultimately show ?thesis
    using assms(1) rd
    by (simp add: verifyStream_def Let_def W_def [symmetric] s0_def)
qed

text \<open>
  Readers that report the end by a read of its own: the window that is left at the end
  holds the last \<open>windowSize\<close> bytes, or the whole content when that is shorter. With
  a buffer larger than the window every read has room, so every run ends; it ends in the
  slice panic exactly when the reader starts short.
\<close>

lemma Read_eofAlone:
  assumes "eofAlone r" and "Read r cap = ((chunk, err), r')"
  shows "eofAlone r'" and "err = ErrEOF \<Longrightarrow> chunk = []"
  using assms by (cases r; auto simp: eofAlone_def split: if_splits)+

lemma Read_noReadError:
  assumes "noReadError r" and "Read r cap = ((chunk, err), r')"
  shows "noReadError r'" and "err \<noteq> ErrOther"
  using assms by (cases r; auto simp: noReadError_def split: if_splits)+

lemma Read_remaining:
  assumes "0 < cap" and "Read r cap = ((chunk, err), r')"
  shows "(r = [] \<and> err = ErrEOF \<and> chunk = []) \<or> remaining r' < remaining r"
  using assms by (cases r) (auto simp: remaining_def split: if_splits)

lemma slide_rest_le: "first \<or> W \<le> k \<Longrightarrow> k - slideLen W first k \<le> W"
  by (auto simp: slideLen_def)

lemma processLoop_exit:
  assumes "processLoop W s = Some (Inr s')" and "n s \<le> length (buffer s)"
    and "eofAlone (src s)" and "\<not> eof s"
  shows "n s' = W \<or> (firstRead s \<and> n s' = n s \<and> n s \<le> W \<and> streamContent (src s) = [])"
proof -
  have "processLoop W s = Some y \<Longrightarrow>
        (\<forall>s'. y = Inr s' \<longrightarrow> n s \<le> length (buffer s) \<longrightarrow> eofAlone (src s) \<longrightarrow>
          (if eof s then s' = s
           else n s' = W \<or> (firstRead s \<and> n s' = n s \<and> n s \<le> W \<and> streamContent (src s) = [])))" for y
  proof (induction W s y rule: processLoop.raw_induct [rotated 1, consumes 1])
    case (1 loop W s y)
    show ?case
    proof (intro impI allI)
      fix s' assume y: "y = Inr s'" and le: "n s \<le> length (buffer s)" and ea: "eofAlone (src s)"
      show "if eof s then s' = s
           else n s' = W \<or> (firstRead s \<and> n s' = n s \<and> n s \<le> W \<and> streamContent (src s) = [])"
      proof (cases "eof s")
        case True
        with 1(2) y show ?thesis by simp
      next
        case False
        from 1(2) False y obtain s1 where st: "processStep W s = Inr s1" and lp: "loop W s1 = Some (Inr s')"
          by (auto split: sum.splits)
        from processStep_Inr [OF st le] obtain chunk err where
          rd: "Read (src s) (length (buffer s) - (n s - slideLen W (firstRead s) (n s))) = ((chunk, err), src s1)"
          and e: "eof s1 = (err = ErrEOF)" "\<not> firstRead s1"
          and f: "firstRead s \<or> W \<le> n s"
          and n1: "n s1 = n s - slideLen W (firstRead s) (n s) + length chunk"
          and l: "length (buffer s1) = length (buffer s)" "n s1 \<le> length (buffer s1)"
          by blast
        note ih = 1(1) [OF lp, rule_format, OF refl l(2) Read_eofAlone(1) [OF ea rd]]
        show ?thesis
        proof (cases "eof s1")
          case True
          with ih have s': "s' = s1" by simp
          from True e have "err = ErrEOF" by simp
          with Read_eofAlone(2) [OF ea rd] Read_content [OF rd]
          have c: "chunk = []" "streamContent (src s) = []" by simp_all
          show ?thesis
            using False s' n1 c f by (auto simp: slideLen_def)
        next
          case F1: False
          with ih e have "n s' = W" by simp
          with False show ?thesis by simp
        qed
      qed
    qed
  qed
  with assms show ?thesis by (auto split: if_splits)
qed

lemma processLoop_returns:
  assumes "W < length (buffer s)" and "n s \<le> length (buffer s)"
  shows "\<exists>y. processLoop W s = Some y"
  using assms
proof (induction "remaining (src s)" arbitrary: s rule: less_induct)
  case less
  show ?case
  proof (cases "eof s")
    case True
    then show ?thesis by (subst processLoop.simps) simp
  next
    case False
    show ?thesis
    proof (cases "processStep W s")
      case (Inl e)
      with False show ?thesis by (subst processLoop.simps) simp
    next
      case (Inr s1)
      from processStep_Inr [OF Inr less.prems(2)] obtain chunk err where
        rd: "Read (src s) (length (buffer s) - (n s - slideLen W (firstRead s) (n s))) = ((chunk, err), src s1)"
        and e: "eof s1 = (err = ErrEOF)"
        and f: "firstRead s \<or> W \<le> n s"
        and l: "length (buffer s1) = length (buffer s)" "n s1 \<le> length (buffer s1)"
        by blast
      have lp: "processLoop W s = processLoop W s1"
        using Inr False by (subst processLoop.simps) simp
      have "0 < length (buffer s) - (n s - slideLen W (firstRead s) (n s))"
        using slide_rest_le [OF f] less.prems(1) by simp
      from Read_remaining [OF this rd]
      show ?thesis
      proof
        assume "src s = [] \<and> err = ErrEOF \<and> chunk = []"
        with e have "eof s1" by simp
        then have "processLoop W s1 = Some (Inr s1)" by (subst processLoop.simps) simp
        with lp show ?thesis by simp
      next
        assume "remaining (src s1) < remaining (src s)"
        from less.hyps [OF this] l less.prems(1) lp show ?thesis by simp
      qed
    qed
  qed
qed

lemma processLoop_no_error:
  assumes "processLoop W s = Some y" and "W \<le> n s" and "n s \<le> length (buffer s)"
    and "noReadError (src s)"
  shows "\<exists>s'. y = Inr s'"
proof -
  have "processLoop W s = Some y \<Longrightarrow>
        W \<le> n s \<longrightarrow> n s \<le> length (buffer s) \<longrightarrow> noReadError (src s) \<longrightarrow> (\<exists>s'. y = Inr s')" for y
  proof (induction W s y rule: processLoop.raw_induct [rotated 1, consumes 1])
    case (1 loop W s y)
    show ?case
    proof (intro impI)
      assume w: "W \<le> n s" and le: "n s \<le> length (buffer s)" and ne: "noReadError (src s)"
      show "\<exists>s'. y = Inr s'"
      proof (cases "eof s")
        case True
        with 1(2) show ?thesis by auto
      next
        case False
        have "\<And>cap. snd (fst (Read (src s) cap)) \<noteq> ErrOther"
          using Read_noReadError(2) [OF ne] by (metis prod.collapse)
        from processStep_total [of s W, OF _ le this] w
        obtain s1 where st: "processStep W s = Inr s1" by auto
        with 1(2) False have lp: "loop W s1 = Some y" by simp
        from processStep_Inr [OF st le] obtain chunk err where
          rd: "Read (src s) (length (buffer s) - (n s - slideLen W (firstRead s) (n s))) = ((chunk, err), src s1)"
          and n1: "n s1 = n s - slideLen W (firstRead s) (n s) + length chunk"
          and l: "length (buffer s1) = length (buffer s)" "n s1 \<le> length (buffer s1)"
          by blast
        have "W \<le> n s1" using n1 w by (auto simp: slideLen_def)
        with 1(1) [OF lp] l(2) Read_noReadError(1) [OF ne rd] show ?thesis by simp
      qed
    qed
  qed
  with assms show ?thesis by blast
qed

lemma verifyLoop_exit:
  assumes "verifyLoop W s = Some (Inr s')" and "rn s \<le> length (rbuffer s)"
    and "eofAlone (rsrc s)" and "\<not> reof s"
  shows "rn s' = W \<or> (rfirstRead s \<and> rn s' = rn s \<and> rn s \<le> W \<and> streamContent (rsrc s) = [])"
proof -
  have "verifyLoop W s = Some y \<Longrightarrow>
        (\<forall>s'. y = Inr s' \<longrightarrow> rn s \<le> length (rbuffer s) \<longrightarrow> eofAlone (rsrc s) \<longrightarrow>
          (if reof s then s' = s
           else rn s' = W \<or> (rfirstRead s \<and> rn s' = rn s \<and> rn s \<le> W \<and> streamContent (rsrc s) = [])))" for y
  proof (induction W s y rule: verifyLoop.raw_induct [rotated 1, consumes 1])
    case (1 loop W s y)
    show ?case
    proof (intro impI allI)
      fix s' assume y: "y = Inr s'" and le: "rn s \<le> length (rbuffer s)" and ea: "eofAlone (rsrc s)"
      show "if reof s then s' = s
           else rn s' = W \<or> (rfirstRead s \<and> rn s' = rn s \<and> rn s \<le> W \<and> streamContent (rsrc s) = [])"
      proof (cases "reof s")
        case True
        with 1(2) y show ?thesis by simp
      next
        case False
        from 1(2) False y obtain s1 where st: "verifyStep W s = Inr s1" and lp: "loop W s1 = Some (Inr s')"
          by (auto split: sum.splits)
        from verifyStep_Inr [OF st le] obtain chunk err where
          rd: "Read (rsrc s) (length (rbuffer s) - (rn s - slideLen W (rfirstRead s) (rn s))) = ((chunk, err), rsrc s1)"
          and e: "reof s1 = (err = ErrEOF)" "\<not> rfirstRead s1"
          and f: "rfirstRead s \<or> W \<le> rn s"
          and n1: "rn s1 = rn s - slideLen W (rfirstRead s) (rn s) + length chunk"
          and l: "length (rbuffer s1) = length (rbuffer s)" "rn s1 \<le> length (rbuffer s1)"
          by blast
        note ih = 1(1) [OF lp, rule_format, OF refl l(2) Read_eofAlone(1) [OF ea rd]]
        show ?thesis
        proof (cases "reof s1")
          case True
          with ih have s': "s' = s1" by simp
          from True e have "err = ErrEOF" by simp
          with Read_eofAlone(2) [OF ea rd] Read_content [OF rd]
          have c: "chunk = []" "streamContent (rsrc s) = []" by simp_all
          show ?thesis
            using False s' n1 c f by (auto simp: slideLen_def)
        next
          case F1: False
          with ih e have "rn s' = W" by simp
          with False show ?thesis by simp
        qed
      qed
    qed
  qed
  with assms show ?thesis by (auto split: if_splits)
qed

lemma verifyLoop_returns:
  assumes "W < length (rbuffer s)" and "rn s \<le> length (rbuffer s)"
  shows "\<exists>y. verifyLoop W s = Some y"
  using assms
proof (induction "remaining (rsrc s)" arbitrary: s rule: less_induct)
  case less
  show ?case
  proof (cases "reof s")
    case True
    then show ?thesis by (subst verifyLoop.simps) simp
  next
    case False
    show ?thesis
    proof (cases "verifyStep W s")
      case (Inl e)
      with False show ?thesis by (subst verifyLoop.simps) simp
    next
      case (Inr s1)
      from verifyStep_Inr [OF Inr less.prems(2)] obtain chunk err where
        rd: "Read (rsrc s) (length (rbuffer s) - (rn s - slideLen W (rfirstRead s) (rn s))) = ((chunk, err), rsrc s1)"
        and e: "reof s1 = (err = ErrEOF)"
        and f: "rfirstRead s \<or> W \<le> rn s"
        and l: "length (rbuffer s1) = length (rbuffer s)" "rn s1 \<le> length (rbuffer s1)"
        by blast
      have lp: "verifyLoop W s = verifyLoop W s1"
        using Inr False by (subst verifyLoop.simps) simp
      have "0 < length (rbuffer s) - (rn s - slideLen W (rfirstRead s) (rn s))"
        using slide_rest_le [OF f] less.prems(1) by simp
      from Read_remaining [OF this rd]
      show ?thesis
      proof
        assume "rsrc s = [] \<and> err = ErrEOF \<and> chunk = []"
        with e have "reof s1" by simp
        then have "verifyLoop W s1 = Some (Inr s1)" by (subst verifyLoop.simps) simp
        with lp show ?thesis by simp
      next
        assume "remaining (rsrc s1) < remaining (rsrc s)"
        from less.hyps [OF this] l less.prems(1) lp show ?thesis by simp
      qed
    qed
  qed
qed

lemma verifyLoop_no_error:
  assumes "verifyLoop W s = Some y" and "W \<le> rn s" and "rn s \<le> length (rbuffer s)"
    and "noReadError (rsrc s)"
  shows "\<exists>s'. y = Inr s'"
proof -
  have "verifyLoop W s = Some y \<Longrightarrow>
        W \<le> rn s \<longrightarrow> rn s \<le> length (rbuffer s) \<longrightarrow> noReadError (rsrc s) \<longrightarrow> (\<exists>s'. y = Inr s')" for y
  proof (induction W s y rule: verifyLoop.raw_induct [rotated 1, consumes 1])
    case (1 loop W s y)
    show ?case
    proof (intro impI)
      assume w: "W \<le> rn s" and le: "rn s \<le> length (rbuffer s)" and ne: "noReadError (rsrc s)"
      show "\<exists>s'. y = Inr s'"
      proof (cases "reof s")
        case True
        with 1(2) show ?thesis by auto
      next
        case False
        have "\<And>cap. snd (fst (Read (rsrc s) cap)) \<noteq> ErrOther"
          using Read_noReadError(2) [OF ne] by (metis prod.collapse)
        from verifyStep_total [of s W, OF _ le this] w
        obtain s1 where st: "verifyStep W s = Inr s1" by auto
        with 1(2) False have lp: "loop W s1 = Some y" by simp
        from verifyStep_Inr [OF st le] obtain chunk err where
          rd: "Read (rsrc s) (length (rbuffer s) - (rn s - slideLen W (rfirstRead s) (rn s))) = ((chunk, err), rsrc s1)"
          and n1: "rn s1 = rn s - slideLen W (rfirstRead s) (rn s) + length chunk"
          and l: "length (rbuffer s1) = length (rbuffer s)" "rn s1 \<le> length (rbuffer s1)"
          by blast
        have "W \<le> rn s1" using n1 w by (auto simp: slideLen_def)
        with 1(1) [OF lp] l(2) Read_noReadError(1) [OF ne rd] show ?thesis by simp
      qed
    qed
  qed
  with assms show ?thesis by blast
qed

lemma processStream_eofAlone:
  assumes run: "processStream c rd = Some (Inr res)"
    and first: "fst (fst (Read rd (nat (BufferSize c)))) \<noteq> []"
    and ea: "eofAlone rd"
  shows "res = naiveProcess c (streamContent rd)"
proof -
  define W where "W = windowSize c"
  define B where "B = nat (BufferSize c)"
  obtain chunk err rd' where rd: "Read rd B = ((chunk, err), rd')" by (metis surj_pair)
  define s0 where "s0 = \<lparr>buffer = store (replicate B (CHR 0x00)) 0 chunk, n = length chunk,
      firstRead = True, eof = (err = ErrEOF), src = rd', dst = [], hasher = 0\<rparr>"
  have ch: "chunk \<noteq> []" using first rd by (simp add: B_def)
  have chl: "length chunk \<le> B" using Read_length [OF rd] .
  from run rd ch obtain s' where e: "err \<noteq> ErrOther" and lp: "processLoop W s0 = Some (Inr s')"
    and res: "res = finalizeWindow c (dst s') (hasher s') (take (n s') (buffer s'))"
    by (auto simp: processStream_def Let_def B_def [symmetric] W_def [symmetric] s0_def [symmetric]
        split: if_splits option.splits sum.splits)
  have lenb: "length (buffer s0) = B" using chl by (simp add: s0_def store_def)
  have v0: "take (n s0) (buffer s0) = chunk" by (simp add: s0_def store_def)
  have ne: "\<not> eof s0" using Read_eofAlone(2) [OF ea rd] ch by (auto simp: s0_def)
  have le0: "n s0 \<le> length (buffer s0)" using chl lenb by (simp add: s0_def)
  have ea0: "eofAlone (src s0)" using Read_eofAlone(1) [OF ea rd] by (simp add: s0_def)
  from processLoop_partial [OF lp le0] obtain pre where
    p: "dst s' = dst s0 @ pre" "hasher s' = crc_update (hasher s0) pre"
       "pre @ take (n s') (buffer s') = take (n s0) (buffer s0) @ (if eof s0 then [] else streamContent (src s0))"
       "n s' \<le> length (buffer s')"
    by auto
  have "streamContent rd = chunk @ (if err = ErrNil then streamContent rd' else [])"
    using Read_content [OF rd] .
  with e ne have sc: "streamContent rd = chunk @ streamContent (src s0)"
    by (cases err) (auto simp: s0_def)
  have C: "pre @ take (n s') (buffer s') = streamContent rd"
    using p(3) v0 sc ne by simp
  have lw: "length (take (n s') (buffer s')) = n s'" using p(4) by simp
  from C lw have len: "length (streamContent rd) = length pre + n s'"
    by (metis length_append)
  have k: "length pre = length (streamContent rd) - W"
    using processLoop_exit [OF lp le0 ea0 ne]
  proof
    assume "n s' = W" with len show ?thesis by simp
  next
    assume a: "firstRead s0 \<and> n s' = n s0 \<and> n s0 \<le> W \<and> streamContent (src s0) = []"
    with sc have "length (streamContent rd) = n s0" by (simp add: s0_def)
    with a len show ?thesis by simp
  qed
  from C have "pre = take (length pre) (streamContent rd)"
    and "take (n s') (buffer s') = drop (length pre) (streamContent rd)"
    by (metis append_eq_conv_conj, metis append_eq_conv_conj)
  with res p(1,2) k show ?thesis
    by (simp add: naiveProcess_def referenceProcess_def s0_def W_def)
qed

lemma processStream_eofAlone_full:
  assumes run: "processStream c rd = Some x"
    and first: "fst (fst (Read rd (nat (BufferSize c)))) \<noteq> []"
    and ea: "eofAlone rd"
  shows "x = Inl SlicePanic \<or> x = Inl ReadError \<or> x = Inr (naiveProcess c (streamContent rd))"
proof (cases x)
  case (Inr res)
  with processStream_eofAlone [OF run [unfolded Inr] first ea] show ?thesis by simp
next
  case (Inl e)
  with processStream_any_full [OF run first] show ?thesis by auto
qed

lemma processStream_returns:
  assumes big: "int (windowSize c) < BufferSize c"
  shows "\<exists>x. processStream c rd = Some x"
proof -
  define W where "W = windowSize c"
  define B where "B = nat (BufferSize c)"
  obtain chunk err rd' where rd: "Read rd B = ((chunk, err), rd')" by (metis surj_pair)
  define s0 where "s0 = \<lparr>buffer = store (replicate B (CHR 0x00)) 0 chunk, n = length chunk,
      firstRead = True, eof = (err = ErrEOF), src = rd', dst = [], hasher = 0\<rparr>"
  have WB: "W < B" using big by (simp add: W_def B_def)
  have chl: "length chunk \<le> B" using Read_length [OF rd] .
  have lenb: "length (buffer s0) = B" using chl by (simp add: s0_def store_def)
  have "\<exists>y. processLoop W s0 = Some y"
    using processLoop_returns [of W s0] lenb WB chl by (simp add: s0_def)
  then obtain y where "processLoop W s0 = Some y" ..
  then show ?thesis
    using rd
    by (cases y)
       (auto simp: processStream_def Let_def B_def [symmetric] W_def [symmetric] s0_def [symmetric])
qed

lemma verifyLoop_window:
  assumes rd: "Read rd B = ((chunk, err), rd')" and ch: "chunk \<noteq> []" and e: "err \<noteq> ErrOther"
    and ea: "eofAlone rd"
    and lp: "verifyLoop (windowSize c)
               \<lparr>rbuffer = store (replicate B (CHR 0x00)) 0 chunk, rn = length chunk,
                rfirstRead = True, reof = (err = ErrEOF), rsrc = rd', rhasher = 0\<rparr> = Some (Inr s')"
  shows "verifyWindow c (rhasher s') (take (rn s') (rbuffer s')) = naiveVerify c (streamContent rd)"
proof -
  define W where "W = windowSize c"
  define s0 where "s0 = \<lparr>rbuffer = store (replicate B (CHR 0x00)) 0 chunk, rn = length chunk,
      rfirstRead = True, reof = (err = ErrEOF), rsrc = rd', rhasher = 0\<rparr>"
  have lp: "verifyLoop W s0 = Some (Inr s')" using lp by (simp add: W_def s0_def)
  have chl: "length chunk \<le> B" using Read_length [OF rd] .
  have lenb: "length (rbuffer s0) = B" using chl by (simp add: s0_def store_def)
  have v0: "take (rn s0) (rbuffer s0) = chunk" by (simp add: s0_def store_def)
  have ne: "\<not> reof s0" using Read_eofAlone(2) [OF ea rd] ch by (auto simp: s0_def)
  have le0: "rn s0 \<le> length (rbuffer s0)" using chl lenb by (simp add: s0_def)
  have ea0: "eofAlone (rsrc s0)" using Read_eofAlone(1) [OF ea rd] by (simp add: s0_def)
  from verifyLoop_partial [OF lp le0] obtain pre where
    p: "rhasher s' = crc_update (rhasher s0) pre"
       "pre @ take (rn s') (rbuffer s') = take (rn s0) (rbuffer s0) @ (if reof s0 then [] else streamContent (rsrc s0))"
       "rn s' \<le> length (rbuffer s')"
    by auto
  have "streamContent rd = chunk @ (if err = ErrNil then streamContent rd' else [])"
    using Read_content [OF rd] .
  with e ne have sc: "streamContent rd = chunk @ streamContent (rsrc s0)"
    by (cases err) (auto simp: s0_def)
  have C: "pre @ take (rn s') (rbuffer s') = streamContent rd"
    using p(2) v0 sc ne by simp
  have lw: "length (take (rn s') (rbuffer s')) = rn s'" using p(3) by simp
  from C lw have len: "length (streamContent rd) = length pre + rn s'"
    by (metis length_append)
  have k: "length pre = length (streamContent rd) - W"
    using verifyLoop_exit [OF lp le0 ea0 ne]
  proof
    assume "rn s' = W" with len show ?thesis by simp
  next
    assume a: "rfirstRead s0 \<and> rn s' = rn s0 \<and> rn s0 \<le> W \<and> streamContent (rsrc s0) = []"
    with sc have "length (streamContent rd) = rn s0" by (simp add: s0_def)
    with a len show ?thesis by simp
  qed
  from C have "pre = take (length pre) (streamContent rd)"
    and "take (rn s') (rbuffer s') = drop (length pre) (streamContent rd)"
    by (metis append_eq_conv_conj, metis append_eq_conv_conj)
  with p(1) k show ?thesis
    by (simp add: naiveVerify_def referenceVerify_def s0_def W_def)
qed

lemma verifyStream_eofAlone:
  assumes run: "verifyStream c rd = Some r"
    and first: "fst (fst (Read rd (nat (BufferSize c)))) \<noteq> []"
    and ea: "eofAlone rd"
  shows "r = Inl SlicePanic \<or> r = Inl ReadError \<or> r = naiveVerify c (streamContent rd)"
proof -
  define B where "B = nat (BufferSize c)"
  obtain chunk err rd' where rd: "Read rd B = ((chunk, err), rd')" by (metis surj_pair)
  define s0 where "s0 = \<lparr>rbuffer = store (replicate B (CHR 0x00)) 0 chunk, rn = length chunk,
      rfirstRead = True, reof = (err = ErrEOF), rsrc = rd', rhasher = 0\<rparr>"
  have ch: "chunk \<noteq> []" using first rd by (simp add: B_def)
  have chl: "length chunk \<le> B" using Read_length [OF rd] .
  have nonneg: "\<not> BufferSize c < 0" using chl ch by (cases "BufferSize c < 0") (auto simp: B_def)
  show ?thesis
  proof (cases "err = ErrOther")
    case True
    with run rd nonneg show ?thesis
      by (simp add: verifyStream_def Let_def B_def [symmetric])
  next
    case e: False
    obtain y where lp: "verifyLoop (windowSize c) s0 = Some y"
      using run rd ch e nonneg
      by (auto simp: verifyStream_def Let_def B_def [symmetric] s0_def [symmetric]
          split: option.splits)
    show ?thesis
    proof (cases y)
      case (Inl e')
      with run rd ch e nonneg lp have "r = Inl e'"
        by (simp add: verifyStream_def Let_def B_def [symmetric] s0_def [symmetric])
      with verifyLoop_errors [of "windowSize c" s0 e'] lp Inl show ?thesis by auto
    next
      case (Inr s')
      with run rd ch e nonneg lp
      have res: "r = verifyWindow c (rhasher s') (take (rn s') (rbuffer s'))"
        by (simp add: verifyStream_def Let_def B_def [symmetric] s0_def [symmetric])
      from verifyLoop_window [OF rd ch e ea lp [unfolded Inr s0_def]] res
      show ?thesis by simp
    qed
  qed
qed

lemma verifyStream_returns:
  assumes big: "int (windowSize c) < BufferSize c"
  shows "\<exists>r. verifyStream c rd = Some r"
proof -
  define W where "W = windowSize c"
  define B where "B = nat (BufferSize c)"
  obtain chunk err rd' where rd: "Read rd B = ((chunk, err), rd')" by (metis surj_pair)
  define s0 where "s0 = \<lparr>rbuffer = store (replicate B (CHR 0x00)) 0 chunk, rn = length chunk,
      rfirstRead = True, reof = (err = ErrEOF), rsrc = rd', rhasher = 0\<rparr>"
  have WB: "W < B" using big by (simp add: W_def B_def)
  have chl: "length chunk \<le> B" using Read_length [OF rd] .
  have lenb: "length (rbuffer s0) = B" using chl by (simp add: s0_def store_def)
  have "\<exists>y. verifyLoop W s0 = Some y"
    using verifyLoop_returns [of W s0] lenb WB chl by (simp add: s0_def)
  then obtain y where "verifyLoop W s0 = Some y" ..
  then show ?thesis
    using rd
    by (cases y)
       (auto simp: verifyStream_def Let_def B_def [symmetric] W_def [symmetric] s0_def [symmetric])
qed

lemma processLoop_first_step:
  assumes lp: "processLoop W s = Some y" and f: "firstRead s" "\<not> eof s" "n s \<le> W"
    and le: "n s \<le> length (buffer s)" and nr: "noReadError (src s)"
    and rd: "Read (src s) (length (buffer s) - n s) = ((c2, e2), r2)"
    and ok: "e2 = ErrEOF \<or> W \<le> n s + length c2"
  shows "\<exists>s'. y = Inr s'"
proof -
  have "\<And>cap. snd (fst (Read (src s) cap)) \<noteq> ErrOther"
    using Read_noReadError(2) [OF nr] by (metis prod.collapse)
  from processStep_total [of s W, OF _ le this] f
  obtain s1 where st: "processStep W s = Inr s1" by auto
  have sl: "slideLen W (firstRead s) (n s) = 0" using f by (simp add: slideLen_def)
  from processStep_Inr [OF st le] rd sl
  have e: "eof s1 = (e2 = ErrEOF)" and n1: "n s1 = n s + length c2"
    and l: "n s1 \<le> length (buffer s1)" and s: "src s1 = r2"
    by auto
  have lp1: "processLoop W s1 = Some y"
    using lp st f by (subst (asm) processLoop.simps) simp
  show ?thesis
  proof (cases "eof s1")
    case True
    with lp1 show ?thesis by (subst (asm) processLoop.simps) auto
  next
    case False
    with ok e n1 have "W \<le> n s1" by simp
    from processLoop_no_error [OF lp1 this l] Read_noReadError(1) [OF nr rd] s
    show ?thesis by simp
  qed
qed

lemma processLoop_short_start:
  assumes f: "firstRead s" "\<not> eof s" and le: "n s \<le> length (buffer s)"
    and rd: "Read (src s) (length (buffer s) - n s) = ((c2, ErrNil), r2)"
    and short: "n s + length c2 < W"
  shows "processLoop W s = Some (Inl SlicePanic)"
proof -
  have "processStep W s = Inr (s\<lparr>firstRead := False, buffer := store (buffer s) (n s) c2,
                                     n := n s + length c2, eof := False, src := r2\<rparr>)"
    using f le rd short by (simp add: processStep_def)
  moreover have "processStep W (s\<lparr>firstRead := False, buffer := store (buffer s) (n s) c2,
                                     n := n s + length c2, eof := False, src := r2\<rparr>) = Inl SlicePanic"
    using short by (simp add: processStep_def)
  ultimately show ?thesis
    using f by (subst processLoop.simps, simp, subst processLoop.simps, simp)
qed

lemma processStream_exact:
  assumes big: "int (windowSize c) < BufferSize c"
    and ea: "eofAlone rd" and nr: "noReadError rd"
    and first: "fst (fst (Read rd (nat (BufferSize c)))) \<noteq> []"
  shows "processStream c rd =
           Some (if shortStart c rd then Inl SlicePanic
                 else Inr (naiveProcess c (streamContent rd)))"
proof -
  define W where "W = windowSize c"
  define B where "B = nat (BufferSize c)"
  obtain c1 e1 rd1 where rd: "Read rd B = ((c1, e1), rd1)" by (metis surj_pair)
  obtain c2 e2 rd2 where rd': "Read rd1 (B - length c1) = ((c2, e2), rd2)" by (metis surj_pair)
  define s0 where "s0 = \<lparr>buffer = store (replicate B (CHR 0x00)) 0 c1, n = length c1,
      firstRead = True, eof = (e1 = ErrEOF), src = rd1, dst = [], hasher = 0\<rparr>"
  have ch: "c1 \<noteq> []" using first rd by (simp add: B_def)
  have chl: "length c1 \<le> B" using Read_length [OF rd] .
  have lenb: "length (buffer s0) = B" using chl by (simp add: s0_def store_def)
  have e: "e1 \<noteq> ErrOther" using Read_noReadError(2) [OF nr rd] .
  have ne: "e1 \<noteq> ErrEOF" using Read_eofAlone(2) [OF ea rd] ch by auto
  have nr1: "noReadError rd1" using Read_noReadError(1) [OF nr rd] .
  have nonneg: "\<not> BufferSize c < 0" using big by simp
  have ps: "processStream c rd =
          (case processLoop W s0 of None \<Rightarrow> None | Some (Inl e) \<Rightarrow> Some (Inl e)
           | Some (Inr s) \<Rightarrow> Some (Inr (finalizeWindow c (dst s) (hasher s) (take (n s) (buffer s)))))"
    using rd ch e nonneg
    by (simp add: processStream_def Let_def B_def [symmetric] W_def [symmetric] s0_def [symmetric])
  have sh: "shortStart c rd \<longleftrightarrow> length c1 + length c2 < W \<and> e2 = ErrNil"
    using rd rd' by (simp add: shortStart_def B_def [symmetric] W_def)
  show ?thesis
  proof (cases "shortStart c rd")
    case True
    with sh have s: "length c1 + length c2 < W" "e2 = ErrNil" by simp_all
    have "processLoop W s0 = Some (Inl SlicePanic)"
      using processLoop_short_start [of s0 c2 rd2 W] rd' s ne chl lenb
      by (simp add: s0_def)
    with ps True show ?thesis by simp
  next
    case False
    from processStream_returns [OF big] obtain x where x: "processStream c rd = Some x" ..
    with ps obtain y where lp: "processLoop W s0 = Some y" by (auto split: option.splits)
    have "\<exists>s'. y = Inr s'"
    proof (cases "W \<le> length c1")
      case True
      from processLoop_no_error [OF lp] True chl lenb nr1 show ?thesis by (simp add: s0_def)
    next
      case F: False
      have ok: "e2 = ErrEOF \<or> W \<le> length c1 + length c2"
        using False sh Read_noReadError(2) [OF nr1 rd'] by (cases e2) auto
      from processLoop_first_step [OF lp, of c2 e2 rd2] F chl lenb nr1 rd' ok ne
      show ?thesis by (simp add: s0_def)
    qed
    then obtain s' where "y = Inr s'" ..
    with ps lp x obtain res where "x = Inr res" by auto
    with x processStream_eofAlone [of c rd res] ea first False show ?thesis by simp
  qed
qed

lemma verifyLoop_first_step:
  assumes lp: "verifyLoop W s = Some y" and f: "rfirstRead s" "\<not> reof s" "rn s \<le> W"
    and le: "rn s \<le> length (rbuffer s)" and nr: "noReadError (rsrc s)"
    and rd: "Read (rsrc s) (length (rbuffer s) - rn s) = ((c2, e2), r2)"
    and ok: "e2 = ErrEOF \<or> W \<le> rn s + length c2"
  shows "\<exists>s'. y = Inr s'"
proof -
  have "\<And>cap. snd (fst (Read (rsrc s) cap)) \<noteq> ErrOther"
    using Read_noReadError(2) [OF nr] by (metis prod.collapse)
  from verifyStep_total [of s W, OF _ le this] f
  obtain s1 where st: "verifyStep W s = Inr s1" by auto
  have sl: "slideLen W (rfirstRead s) (rn s) = 0" using f by (simp add: slideLen_def)
  from verifyStep_Inr [OF st le] rd sl
  have e: "reof s1 = (e2 = ErrEOF)" and n1: "rn s1 = rn s + length c2"
    and l: "rn s1 \<le> length (rbuffer s1)" and s: "rsrc s1 = r2"
    by auto
  have lp1: "verifyLoop W s1 = Some y"
    using lp st f by (subst (asm) verifyLoop.simps) simp
  show ?thesis
  proof (cases "reof s1")
    case True
    with lp1 show ?thesis by (subst (asm) verifyLoop.simps) auto
  next
    case False
    with ok e n1 have "W \<le> rn s1" by simp
    from verifyLoop_no_error [OF lp1 this l] Read_noReadError(1) [OF nr rd] s
    show ?thesis by simp
  qed
qed

lemma verifyLoop_short_start:
  assumes f: "rfirstRead s" "\<not> reof s" and le: "rn s \<le> length (rbuffer s)"
    and rd: "Read (rsrc s) (length (rbuffer s) - rn s) = ((c2, ErrNil), r2)"
    and short: "rn s + length c2 < W"
  shows "verifyLoop W s = Some (Inl SlicePanic)"
proof -
  have "verifyStep W s = Inr (s\<lparr>rfirstRead := False, rbuffer := store (rbuffer s) (rn s) c2,
                                     rn := rn s + length c2, reof := False, rsrc := r2\<rparr>)"
    using f le rd short by (simp add: verifyStep_def)
  moreover have "verifyStep W (s\<lparr>rfirstRead := False, rbuffer := store (rbuffer s) (rn s) c2,
                                     rn := rn s + length c2, reof := False, rsrc := r2\<rparr>) = Inl SlicePanic"
    using short by (simp add: verifyStep_def)
  ultimately show ?thesis
    using f by (subst verifyLoop.simps, simp, subst verifyLoop.simps, simp)
qed

lemma verifyStream_exact:
  assumes big: "int (windowSize c) < BufferSize c"
    and ea: "eofAlone rd" and nr: "noReadError rd"
    and first: "fst (fst (Read rd (nat (BufferSize c)))) \<noteq> []"
  shows "verifyStream c rd =
           Some (if shortStart c rd then Inl SlicePanic else naiveVerify c (streamContent rd))"
proof -
  define W where "W = windowSize c"
  define B where "B = nat (BufferSize c)"
  obtain c1 e1 rd1 where rd: "Read rd B = ((c1, e1), rd1)" by (metis surj_pair)
  obtain c2 e2 rd2 where rd': "Read rd1 (B - length c1) = ((c2, e2), rd2)" by (metis surj_pair)
  define s0 where "s0 = \<lparr>rbuffer = store (replicate B (CHR 0x00)) 0 c1, rn = length c1,
      rfirstRead = True, reof = (e1 = ErrEOF), rsrc = rd1, rhasher = 0\<rparr>"
  have ch: "c1 \<noteq> []" using first rd by (simp add: B_def)
  have chl: "length c1 \<le> B" using Read_length [OF rd] .
  have lenb: "length (rbuffer s0) = B" using chl by (simp add: s0_def store_def)
  have e: "e1 \<noteq> ErrOther" using Read_noReadError(2) [OF nr rd] .
  have ne: "e1 \<noteq> ErrEOF" using Read_eofAlone(2) [OF ea rd] ch by auto
  have nr1: "noReadError rd1" using Read_noReadError(1) [OF nr rd] .
  have nonneg: "\<not> BufferSize c < 0" using big by simp
  have ps: "verifyStream c rd =
          (case verifyLoop W s0 of None \<Rightarrow> None | Some (Inl e) \<Rightarrow> Some (Inl e)
           | Some (Inr s) \<Rightarrow> Some (verifyWindow c (rhasher s) (take (rn s) (rbuffer s))))"
    using rd ch e nonneg
    by (simp add: verifyStream_def Let_def B_def [symmetric] W_def [symmetric] s0_def [symmetric])
  have sh: "shortStart c rd \<longleftrightarrow> length c1 + length c2 < W \<and> e2 = ErrNil"
    using rd rd' by (simp add: shortStart_def B_def [symmetric] W_def)
  show ?thesis
  proof (cases "shortStart c rd")
    case True
    with sh have s: "length c1 + length c2 < W" "e2 = ErrNil" by simp_all
    have "verifyLoop W s0 = Some (Inl SlicePanic)"
      using verifyLoop_short_start [of s0 c2 rd2 W] rd' s ne chl lenb
      by (simp add: s0_def)
    with ps True show ?thesis by simp
  next
    case False
    from verifyStream_returns [OF big] obtain r where r: "verifyStream c rd = Some r" ..
    with ps obtain y where lp: "verifyLoop W s0 = Some y" by (auto split: option.splits)
    have "\<exists>s'. y = Inr s'"
    proof (cases "W \<le> length c1")
      case True
      from verifyLoop_no_error [OF lp] True chl lenb nr1 show ?thesis by (simp add: s0_def)
    next
      case F: False
      have ok: "e2 = ErrEOF \<or> W \<le> length c1 + length c2"
        using False sh Read_noReadError(2) [OF nr1 rd'] by (cases e2) auto
      from verifyLoop_first_step [OF lp, of c2 e2 rd2] F chl lenb nr1 rd' ok ne
      show ?thesis by (simp add: s0_def)
    qed
    then obtain s' where y: "y = Inr s'" ..
    with ps lp r have "r = verifyWindow c (rhasher s') (take (rn s') (rbuffer s'))" by simp
    with verifyLoop_window [OF rd ch e ea lp [unfolded y s0_def W_def]] r False
    show ?thesis by simp
  qed
qed

section \<open>Empty input\<close>

lemma fmt08X_0: "fmt08X 0 = ''00000000''"
  by (simp add: fmt08X_def hexDigit_def)

lemma Read_empty_content:
  assumes "streamContent rd = []" shows "fst (fst (Read rd cap)) = []"
proof -
  obtain chunk err rd' where rd: "Read rd cap = ((chunk, err), rd')" by (metis surj_pair)
  from Read_content [OF rd] assms show ?thesis by (simp add: rd)
qed

text \<open>
  C7. On a stream of zero bytes whose first read does not fail, the Writer's pass
  succeeds, writes exactly one marker line with the checksum of no input (00000000,
  ended by a line feed) and reports a modification (never a no-op); the Reader's pass
  returns the empty-file error instead of a verdict.
\<close>

theorem C7_empty_input:
  assumes "0 \<le> BufferSize c" and "streamContent rd = []"
    and "snd (fst (Read rd (nat (BufferSize c)))) \<noteq> ErrOther"
  shows "processStream c rd
           = Some (Inr (False, Prefix (CommentStyle c) @ ''FileIntegrity: 00000000''
                                 @ Suffix (CommentStyle c) @ [LF]))
         \<and> verifyStream c rd = Some (Inl EmptyFile)"
  using assms Read_empty_content [OF assms(2), of "nat (BufferSize c)"]
  by (auto simp: processStream_def verifyStream_def finalizeEmpty_def
      createComment_def keyText_def fmt08X_0 split: prod.splits)

theorem C7_empty_input_witness:
  "0 \<le> BufferSize DefaultConfig
   \<and> streamContent (fileReader []) = []
   \<and> snd (fst (Read (fileReader []) (nat (BufferSize DefaultConfig)))) \<noteq> ErrOther
   \<and> processStream DefaultConfig (fileReader [])
        = Some (Inr (False, ''// FileIntegrity: 00000000'' @ [LF]))
   \<and> verifyStream DefaultConfig (fileReader []) = Some (Inl EmptyFile)"
  using C7_empty_input [of DefaultConfig "fileReader []"]
  by (simp add: DefaultConfig_def GoStyle_def fileReader_def)

section \<open>Hexadecimal digits: decoding inverts formatting\<close>

lemma nibbles_join:
  fixes v :: "32 word"
  shows "push_bit 24 (push_bit 4 (take_bit 4 (drop_bit 28 v)) OR take_bit 4 (drop_bit 24 v))
         OR push_bit 16 (push_bit 4 (take_bit 4 (drop_bit 20 v)) OR take_bit 4 (drop_bit 16 v))
         OR push_bit 8 (push_bit 4 (take_bit 4 (drop_bit 12 v)) OR take_bit 4 (drop_bit 8 v))
         OR (push_bit 4 (take_bit 4 (drop_bit 4 v)) OR take_bit 4 v) = v"
proof (rule bit_eqI)
  fix n assume "possible_bit TYPE(32 word) n"
  then have n: "n < 32" by (simp add: possible_bit_word)
  consider "n < 4" | "4 \<le> n" "n < 8" | "8 \<le> n" "n < 12" | "12 \<le> n" "n < 16"
    | "16 \<le> n" "n < 20" | "20 \<le> n" "n < 24" | "24 \<le> n" "n < 28" | "28 \<le> n" "n < 32"
    using n by linarith
  then show "bit (push_bit 24 (push_bit 4 (take_bit 4 (drop_bit 28 v)) OR take_bit 4 (drop_bit 24 v))
         OR push_bit 16 (push_bit 4 (take_bit 4 (drop_bit 20 v)) OR take_bit 4 (drop_bit 16 v))
         OR push_bit 8 (push_bit 4 (take_bit 4 (drop_bit 12 v)) OR take_bit 4 (drop_bit 8 v))
         OR (push_bit 4 (take_bit 4 (drop_bit 4 v)) OR take_bit 4 v)) n = bit v n"
    by cases (auto simp: bit_simps)
qed

lemma fifteen_mask: "(0xF :: 32 word) = mask 4" by (simp add: mask_eq_exp_minus_1)
lemma hexDigit_take_bit: "hexDigit d = ''0123456789ABCDEF'' ! unat (take_bit 4 d)"
  by (simp add: hexDigit_def fifteen_mask take_bit_eq_mask)
lemma less_16_cases:
  "(k::nat) < 16 \<Longrightarrow> k = 0 \<or> k = 1 \<or> k = 2 \<or> k = 3 \<or> k = 4 \<or> k = 5 \<or> k = 6 \<or> k = 7
     \<or> k = 8 \<or> k = 9 \<or> k = 10 \<or> k = 11 \<or> k = 12 \<or> k = 13 \<or> k = 14 \<or> k = 15"
  by arith
lemma fromHexChar_digit:
  assumes "k < 16" shows "fromHexChar (''0123456789ABCDEF'' ! k) = Some (of_nat k)"
  using less_16_cases [OF assms] by (elim disjE) (simp_all add: fromHexChar_def)
lemma isUpperHex_digit:
  assumes "k < 16" shows "isUpperHex (''0123456789ABCDEF'' ! k)"
  using less_16_cases [OF assms] by (elim disjE) (simp_all add: isUpperHex_def)

lemma unat_take_bit_4: "unat (take_bit 4 (d :: 32 word)) < 16"
proof -
  have "unat (take_bit 4 d) = take_bit 4 (unat d)" by (simp add: unsigned_take_bit_eq)
  also have "\<dots> < 2 ^ 4" by (rule take_bit_nat_less_exp)
  finally show ?thesis by simp
qed

lemma fromHexChar_hexDigit: "fromHexChar (hexDigit z) = Some (take_bit 4 z)"
  using fromHexChar_digit [OF unat_take_bit_4 [of z]]
  by (simp add: hexDigit_take_bit)

lemma isUpperHex_hexDigit: "isUpperHex (hexDigit z)"
  using isUpperHex_digit [OF unat_take_bit_4 [of z]]
  by (simp add: hexDigit_take_bit)

lemma hexDecode_fmt08X:
  "hexDecodeString (fmt08X v) =
     Some [push_bit 4 (take_bit 4 (drop_bit 28 v)) OR take_bit 4 (drop_bit 24 v),
           push_bit 4 (take_bit 4 (drop_bit 20 v)) OR take_bit 4 (drop_bit 16 v),
           push_bit 4 (take_bit 4 (drop_bit 12 v)) OR take_bit 4 (drop_bit 8 v),
           push_bit 4 (take_bit 4 (drop_bit 4 v)) OR take_bit 4 v]"
  by (simp add: fmt08X_def fromHexChar_hexDigit)

lemma parseCRC_fmt08X: "parseCRC (fmt08X v) = Some v"
  unfolding parseCRC_def hexDecode_fmt08X list.case option.case nibbles_join ..

lemma upper_cases:
  "(48 \<le> (k::nat) \<and> k \<le> 57) \<or> (65 \<le> k \<and> k \<le> 70) \<Longrightarrow>
     k = 48 \<or> k = 49 \<or> k = 50 \<or> k = 51 \<or> k = 52 \<or> k = 53 \<or> k = 54 \<or> k = 55 \<or> k = 56 \<or> k = 57
     \<or> k = 65 \<or> k = 66 \<or> k = 67 \<or> k = 68 \<or> k = 69 \<or> k = 70"
  by arith

lemma isUpperHex_is_digit:
  assumes "isUpperHex d" shows "\<exists>z. d = hexDigit z"
proof -
  have "(48 \<le> (of_char d :: nat) \<and> (of_char d :: nat) \<le> 57) \<or> (65 \<le> (of_char d :: nat) \<and> (of_char d :: nat) \<le> 70)"
    using assms by (simp add: isUpperHex_def Let_def)
  from upper_cases [OF this]
  have "\<exists>k<16. (of_char (''0123456789ABCDEF'' ! k) :: nat) = of_char d"
  proof (elim disjE)
  qed (rule exI [of _ 0], simp, rule exI [of _ 1], simp, rule exI [of _ 2], simp,
       rule exI [of _ 3], simp, rule exI [of _ 4], simp, rule exI [of _ 5], simp,
       rule exI [of _ 6], simp, rule exI [of _ 7], simp, rule exI [of _ 8], simp,
       rule exI [of _ 9], simp, rule exI [of _ 10], simp, rule exI [of _ 11], simp,
       rule exI [of _ 12], simp, rule exI [of _ 13], simp, rule exI [of _ 14], simp,
       rule exI [of _ 15], simp)
  then obtain k where k: "k < 16" "(of_char (''0123456789ABCDEF'' ! k) :: nat) = of_char d" by blast
  from k(2) have d: "d = ''0123456789ABCDEF'' ! k" by (simp only: of_char_eq_iff)
  have "unat (take_bit 4 (of_nat k :: 32 word)) = k"
    using less_16_cases [OF k(1)] by (elim disjE) simp_all
  then have "d = hexDigit (of_nat k)" using d by (simp add: hexDigit_take_bit)
  then show ?thesis ..
qed

lemma nibble7: "take_bit 4 (drop_bit 28 (joinNibbles z7 z6 z5 z4 z3 z2 z1 z0)) = take_bit 4 z7"
  unfolding joinNibbles_def by (rule bit_eqI) (simp add: bit_simps cong: conj_cong)
lemma nibble6: "take_bit 4 (drop_bit 24 (joinNibbles z7 z6 z5 z4 z3 z2 z1 z0)) = take_bit 4 z6"
  unfolding joinNibbles_def by (rule bit_eqI) (simp add: bit_simps cong: conj_cong)
lemma nibble5: "take_bit 4 (drop_bit 20 (joinNibbles z7 z6 z5 z4 z3 z2 z1 z0)) = take_bit 4 z5"
  unfolding joinNibbles_def by (rule bit_eqI) (simp add: bit_simps cong: conj_cong)
lemma nibble4: "take_bit 4 (drop_bit 16 (joinNibbles z7 z6 z5 z4 z3 z2 z1 z0)) = take_bit 4 z4"
  unfolding joinNibbles_def by (rule bit_eqI) (simp add: bit_simps cong: conj_cong)
lemma nibble3: "take_bit 4 (drop_bit 12 (joinNibbles z7 z6 z5 z4 z3 z2 z1 z0)) = take_bit 4 z3"
  unfolding joinNibbles_def by (rule bit_eqI) (simp add: bit_simps cong: conj_cong)
lemma nibble2: "take_bit 4 (drop_bit 8 (joinNibbles z7 z6 z5 z4 z3 z2 z1 z0)) = take_bit 4 z2"
  unfolding joinNibbles_def by (rule bit_eqI) (simp add: bit_simps cong: conj_cong)
lemma nibble1: "take_bit 4 (drop_bit 4 (joinNibbles z7 z6 z5 z4 z3 z2 z1 z0)) = take_bit 4 z1"
  unfolding joinNibbles_def by (rule bit_eqI) (simp add: bit_simps cong: conj_cong)
lemma nibble0: "take_bit 4 (joinNibbles z7 z6 z5 z4 z3 z2 z1 z0) = take_bit 4 z0"
  unfolding joinNibbles_def by (rule bit_eqI) (simp add: bit_simps cong: conj_cong)

lemma fmt08X_joinNibbles:
  "fmt08X (joinNibbles z7 z6 z5 z4 z3 z2 z1 z0) =
     [hexDigit z7, hexDigit z6, hexDigit z5, hexDigit z4, hexDigit z3, hexDigit z2, hexDigit z1, hexDigit z0]"
  by (simp add: fmt08X_def hexDigit_take_bit nibble7 nibble6 nibble5 nibble4 nibble3 nibble2 nibble1
        nibble0 [simplified drop_bit_0])

lemma length_8_cases:
  assumes "length ds = 8"
  obtains d7 d6 d5 d4 d3 d2 d1 d0 where "ds = [d7, d6, d5, d4, d3, d2, d1, d0 :: 'a]"
proof -
  from assms have "length ds = Suc (Suc (Suc (Suc (Suc (Suc (Suc (Suc 0)))))))" by simp
  then show ?thesis using that by (auto simp: length_Suc_conv)
qed

lemma upper_hex_is_fmt08X:
  assumes "length ds = 8" and "list_all isUpperHex ds"
  shows "\<exists>v. ds = fmt08X v"
proof -
  from assms(1) obtain d7 d6 d5 d4 d3 d2 d1 d0 where ds: "ds = [d7, d6, d5, d4, d3, d2, d1, d0]"
    by (rule length_8_cases)
  from assms(2) ds obtain z7 z6 z5 z4 z3 z2 z1 z0 where
    "d7 = hexDigit z7" "d6 = hexDigit z6" "d5 = hexDigit z5" "d4 = hexDigit z4"
    "d3 = hexDigit z3" "d2 = hexDigit z2" "d1 = hexDigit z1" "d0 = hexDigit z0"
    using isUpperHex_is_digit by (simp add: list_all_iff) metis
  then have "ds = fmt08X (joinNibbles z7 z6 z5 z4 z3 z2 z1 z0)"
    using ds by (simp add: fmt08X_joinNibbles)
  then show ?thesis ..
qed

lemma fmt08X_inj: "fmt08X v = fmt08X v' \<Longrightarrow> v = v'"
  by (metis parseCRC_fmt08X option.inject)

lemma parseCRC_upper_iff:
  assumes "length ds = 8" and "list_all isUpperHex ds"
  shows "parseCRC ds = Some v \<longleftrightarrow> ds = fmt08X v"
proof -
  from upper_hex_is_fmt08X [OF assms] obtain v0 where "ds = fmt08X v0" ..
  then show ?thesis using fmt08X_inj [of v v0] by (auto simp: parseCRC_fmt08X)
qed

section \<open>The marker matcher and the final window\<close>

lemma map_filter_upt_Nil:
  "List.map_filter f [a..<b] = [] \<longleftrightarrow> (\<forall>i. a \<le> i \<and> i < b \<longrightarrow> f i = None)"
  by (auto simp: List.map_filter_def filter_empty_conv)

lemma map_filter_upt_Cons:
  "List.map_filter f [a..<b] = m # ms \<Longrightarrow>
     \<exists>i. a \<le> i \<and> i < b \<and> f i = Some m \<and> (\<forall>j. a \<le> j \<and> j < i \<longrightarrow> f j = None)"
proof (induction "b - a" arbitrary: a)
  case 0
  then show ?case by (simp add: List.map_filter_def)
next
  case (Suc k)
  then have ab: "a < b" by simp
  then have up: "[a..<b] = a # [Suc a..<b]" by (rule upt_conv_Cons)
  show ?case
  proof (cases "f a")
    case None
    with Suc.prems up have "List.map_filter f [Suc a..<b] = m # ms"
      by (simp add: List.map_filter_simps)
    moreover have "k = b - Suc a" using Suc.hyps(2) by simp
    ultimately obtain i where
      "Suc a \<le> i" "i < b" "f i = Some m" "\<forall>j. Suc a \<le> j \<and> j < i \<longrightarrow> f j = None"
      using Suc.hyps(1) [of "Suc a"] by blast
    with None show ?thesis
      by (intro exI [of _ i]) (metis Suc_leD Suc_leI le_neq_implies_less)
  next
    case (Some y)
    with Suc.prems up have "y = m" by (simp add: List.map_filter_simps)
    with Some ab show ?thesis by (intro exI [of _ a]) auto
  qed
qed

lemma matchAt_bound: "matchAt st w i = Some m \<Longrightarrow> i \<le> length w"
  by (auto simp: matchAt_def Let_def split: if_splits)

lemma FindSubmatchIndex_None:
  "FindSubmatchIndex st w = None \<longleftrightarrow> (\<forall>i. matchAt st w i = None)"
proof -
  have "FindSubmatchIndex st w = None
          \<longleftrightarrow> List.map_filter (matchAt st w) [0..<Suc (length w)] = []"
    by (simp add: FindSubmatchIndex_def split: list.splits del: upt_Suc)
  also have "\<dots> \<longleftrightarrow> (\<forall>i. i \<le> length w \<longrightarrow> matchAt st w i = None)"
    by (simp add: map_filter_upt_Nil less_Suc_eq_le del: upt_Suc)
  also have "\<dots> \<longleftrightarrow> (\<forall>i. matchAt st w i = None)"
    using matchAt_bound [of st w] by (metis not_Some_eq)
  finally show ?thesis .
qed

lemma FindSubmatchIndex_Some:
  assumes "FindSubmatchIndex st w = Some m"
  shows "\<exists>i. matchAt st w i = Some m \<and> (\<forall>j < i. matchAt st w j = None)"
proof -
  from assms obtain ms where "List.map_filter (matchAt st w) [0..<Suc (length w)] = m # ms"
    by (auto simp: FindSubmatchIndex_def split: list.splits simp del: upt_Suc)
  from map_filter_upt_Cons [OF this] show ?thesis by auto
qed

lemma FindSubmatchIndex_first:
  assumes "matchAt st w i = Some m" and "\<forall>j < i. matchAt st w j = None"
  shows "FindSubmatchIndex st w = Some m"
proof (cases "FindSubmatchIndex st w")
  case None
  with assms(1) show ?thesis by (simp add: FindSubmatchIndex_None)
next
  case (Some m')
  from FindSubmatchIndex_Some [OF this] obtain i' where
    i': "matchAt st w i' = Some m'" "\<forall>j < i'. matchAt st w j = None" by blast
  have "i' = i"
    using assms i' by (metis linorder_neqE_nat option.distinct(1))
  with i' assms Some show ?thesis by simp
qed

lemma matchAt_shape:
  assumes "matchAt st w i = Some (m0, m1, g0, g1)"
  shows "m0 = i" "g0 = i + length (Prefix st) + length keyText" "g1 = g0 + 8"
    "g1 + length (Suffix st) \<le> length w" "list_all isUpperHex (take 8 (drop g0 w))"
    "length (take 8 (drop g0 w)) = 8"
  using assms by (auto simp: matchAt_def Let_def split: if_splits option.splits)

lemma isUpperHex_fromHexChar: "isUpperHex x \<Longrightarrow> \<exists>v. fromHexChar x = Some v"
  by (auto simp: isUpperHex_def fromHexChar_def Let_def)

lemma parseCRC_upper:
  assumes "length ds = 8" "list_all isUpperHex ds"
  shows "\<exists>v. parseCRC ds = Some v"
proof -
  from assms(1) obtain a b c d e f g h where ds: "ds = [a, b, c, d, e, f, g, h]"
    by (auto simp: numeral_eq_Suc length_Suc_conv)
  from assms(2) ds have "isUpperHex a" "isUpperHex b" "isUpperHex c" "isUpperHex d"
    "isUpperHex e" "isUpperHex f" "isUpperHex g" "isUpperHex h"
    by simp_all
  then obtain va vb vc vd ve vf vg vh where
    "fromHexChar a = Some va" "fromHexChar b = Some vb" "fromHexChar c = Some vc"
    "fromHexChar d = Some vd" "fromHexChar e = Some ve" "fromHexChar f = Some vf"
    "fromHexChar g = Some vg" "fromHexChar h = Some vh"
    using isUpperHex_fromHexChar by meson
  with ds show ?thesis by (simp add: parseCRC_def)
qed

lemma existingCRC_None:
  "existingCRC c w = None \<longleftrightarrow> FindSubmatchIndex (CommentStyle c) w = None"
proof (cases "FindSubmatchIndex (CommentStyle c) w")
  case None
  then show ?thesis by (simp add: existingCRC_def)
next
  case (Some m)
  obtain m0 m1 g0 g1 where m: "m = (m0, m1, g0, g1)" by (cases m) auto
  from FindSubmatchIndex_Some [OF Some] m obtain i where
    "matchAt (CommentStyle c) w i = Some (m0, m1, g0, g1)" by blast
  from matchAt_shape(3,5,6) [OF this] parseCRC_upper [of "take 8 (drop g0 w)"]
  show ?thesis using Some m by (auto simp: existingCRC_def)
qed

lemma readerCrcPart_strip: "readerCrcPart xs = stripLineEnding xs"
proof (cases xs rule: rev_cases)
  case Nil
  then show ?thesis by (simp add: readerCrcPart_def stripLineEnding_def)
next
  case (snoc ys y)
  show ?thesis
  proof (cases ys rule: rev_cases)
    case Nil
    with snoc show ?thesis by (simp add: readerCrcPart_def stripLineEnding_def)
  next
    case (snoc zs z)
    with \<open>xs = ys @ [y]\<close> show ?thesis
      by (simp add: readerCrcPart_def stripLineEnding_def nth_append butlast_append)
  qed
qed

lemma writerCrcPart_strip:
  "writerCrcPart xs = (stripLineEnding xs, xs \<noteq> [] \<and> last xs \<noteq> LF)"
proof (cases xs rule: rev_cases)
  case Nil
  then show ?thesis by (simp add: writerCrcPart_def stripLineEnding_def)
next
  case (snoc ys y)
  show ?thesis
  proof (cases ys rule: rev_cases)
    case Nil
    with snoc show ?thesis by (simp add: writerCrcPart_def stripLineEnding_def)
  next
    case (snoc zs z)
    with \<open>xs = ys @ [y]\<close> show ?thesis
      by (simp add: writerCrcPart_def stripLineEnding_def nth_append butlast_append)
  qed
qed

lemma verifyWindow_alt:
  "verifyWindow c h w =
     (case existingCRC c w of
        None \<Rightarrow> Inl NoComment
      | Some stored \<Rightarrow> Inr (crc_update h (stripLineEnding (contentPartOf c w)) = stored))"
proof (cases "FindSubmatchIndex (CommentStyle c) w")
  case None
  then show ?thesis by (simp add: verifyWindow_def existingCRC_def)
next
  case (Some m)
  with existingCRC_None [of c w] obtain stored where "existingCRC c w = Some stored" by auto
  with Some show ?thesis
    by (auto simp: verifyWindow_def existingCRC_def contentPartOf_def readerCrcPart_strip
        split: prod.splits)
qed

lemma finalizeWindow_alt:
  "finalizeWindow c d h w =
     (let cp = contentPartOf c w; le = detectLineEnding w;
          calc = crc_update h (stripLineEnding cp)
      in if existingCRC c w = Some calc then (True, d @ w)
         else (False, d @ cp @ (if cp \<noteq> [] \<and> last cp \<noteq> LF then le else [])
                          @ createComment c calc le))"
  by (simp add: finalizeWindow_def Let_def writerCrcPart_strip contentPartOf_def existingCRC_def
      split: option.splits prod.splits)

lemma matchTail_iff:
  assumes "e \<le> length w"
  shows "matchTail w e \<noteq> None \<longleftrightarrow>
         (drop e w = [] \<or> hd (drop e w) = LF
          \<or> (hd (drop e w) = CR \<and> (tl (drop e w) = [] \<or> hd (tl (drop e w)) = LF)))"
proof -
  define v u where "v = take e w" and "u = drop e w"
  have w: "w = v @ u" and lv: "length v = e"
    using assms by (simp_all add: v_def u_def)
  have du: "drop e w = u" by (simp add: u_def)
  show ?thesis
    unfolding du
    by (cases u; cases "tl u"; cases "tl (tl u)")
      (auto simp: matchTail_def endLine_def w lv [symmetric] nth_append)
qed

lemma ending_iff:
  "(u = [] \<or> hd u = LF \<or> (hd u = CR \<and> (tl u = [] \<or> hd (tl u) = LF))) \<longleftrightarrow>
   (\<exists>ending rest. u = ending @ rest \<and> ending \<in> {[], [LF], [CR], [CR, LF]}
      \<and> (rest = [] \<or> hd rest = LF))"
proof
  assume l: "u = [] \<or> hd u = LF \<or> (hd u = CR \<and> (tl u = [] \<or> hd (tl u) = LF))"
  show "\<exists>ending rest. u = ending @ rest \<and> ending \<in> {[], [LF], [CR], [CR, LF]}
      \<and> (rest = [] \<or> hd rest = LF)"
  proof (cases "u = [] \<or> hd u = LF")
    case True
    then show ?thesis by (intro exI [of _ "[]"] exI [of _ u]) auto
  next
    case False
    with l have "u = [CR] @ tl u" "tl u = [] \<or> hd (tl u) = LF"
      by (cases u; auto)+
    then show ?thesis by (intro exI [of _ "[CR]"] exI [of _ "tl u"]) auto
  qed
next
  assume "\<exists>ending rest. u = ending @ rest \<and> ending \<in> {[], [LF], [CR], [CR, LF]}
      \<and> (rest = [] \<or> hd rest = LF)"
  then show "u = [] \<or> hd u = LF \<or> (hd u = CR \<and> (tl u = [] \<or> hd (tl u) = LF))"
    by auto
qed

lemma matchAt_iff_markerLineAt: "matchAt st w i \<noteq> None \<longleftrightarrow> markerLineAt st w i"
proof -
  define lit where "lit = Prefix st @ keyText"
  define suf where "suf = Suffix st"
  define e where "e = i + length lit + 8 + length suf"
  define t where "t = drop i w"
  have dd: "drop (i + k) w = drop k t" for k by (simp add: t_def add.commute)
  show ?thesis
  proof
    assume "matchAt st w i \<noteq> None"
    then have bl: "beginLine w i" and le: "e \<le> length w"
      and c: "take (length lit) t = lit"
      and d: "list_all isUpperHex (take 8 (drop (length lit) t))"
      and s: "take (length suf) (drop (length lit + 8) t) = suf"
      and tl: "matchTail w e \<noteq> None"
      by (auto simp: matchAt_def Let_def lit_def suf_def e_def dd add.assoc t_def
          split: if_splits option.splits)
    have il: "i \<le> length w" using le by (simp add: e_def)
    have lt: "length lit + 8 + length suf \<le> length t" using le by (simp add: t_def e_def)
    define digits where "digits = take 8 (drop (length lit) t)"
    have ld: "length digits = 8" using lt by (simp add: digits_def)
    have t1: "t = lit @ drop (length lit) t" using c by (metis append_take_drop_id)
    have t2: "drop (length lit) t = digits @ drop (length lit + 8) t"
      using append_take_drop_id [of 8 "drop (length lit) t"]
      by (simp add: digits_def ac_simps)
    have t3: "drop (length lit + 8) t = suf @ drop (length lit + 8 + length suf) t"
      using s by (metis append_take_drop_id drop_drop add.commute)
    have de: "drop e w = drop (length lit + 8 + length suf) t"
      using dd [of "length lit + 8 + length suf"] by (simp add: e_def add.assoc)
    from tl matchTail_iff [OF le] ending_iff [of "drop e w"] obtain ending rest where
      er: "drop e w = ending @ rest" "ending \<in> {[], [LF], [CR], [CR, LF]}" "rest = [] \<or> hd rest = LF"
      by blast
    have "t = Prefix st @ keyText @ digits @ Suffix st @ ending @ rest"
      using t1 t2 t3 de er(1) by (simp add: lit_def suf_def)
    with bl il d ld er(2,3) show "markerLineAt st w i"
      unfolding markerLineAt_def t_def [symmetric] digits_def [symmetric] beginLine_def
      by blast
  next
    assume "markerLineAt st w i"
    then obtain digits ending rest where
      bl: "i = 0 \<or> (i \<le> length w \<and> w ! (i - 1) = LF)"
      and t: "t = lit @ digits @ suf @ ending @ rest"
      and ld: "length digits = 8" and d: "list_all isUpperHex digits"
      and er: "ending \<in> {[], [LF], [CR], [CR, LF]}" "rest = [] \<or> hd rest = LF"
      by (auto simp: markerLineAt_def t_def lit_def suf_def)
    have il: "i \<le> length w" using bl by auto
    have "length t = length w - i" by (simp add: t_def)
    with t il ld have le: "e \<le> length w" by (simp add: e_def)
    have c: "take (length lit) t = lit" by (simp add: t)
    have d': "take 8 (drop (length lit) t) = digits" using ld by (simp add: t)
    have s: "take (length suf) (drop (length lit + 8) t) = suf" using ld by (simp add: t)
    have de: "drop e w = ending @ rest"
      using dd [of "length lit + 8 + length suf"] ld by (simp add: e_def add.assoc t)
    have "matchTail w e \<noteq> None"
      using matchTail_iff [OF le] ending_iff [of "drop e w"] de er by blast
    then obtain m1 where "matchTail w e = Some m1" by auto
    moreover have "beginLine w i" using bl by (auto simp: beginLine_def)
    ultimately show "matchAt st w i \<noteq> None"
      using le c d d' s
      by (simp add: matchAt_def Let_def lit_def [symmetric] suf_def [symmetric] dd add.assoc
          e_def t_def [symmetric])
  qed
qed

section \<open>Evaluation at concrete inputs\<close>

lemma allones: "(0xFFFFFFFF :: 32 word) = - 1" by simp

lemma crc_update_eval: "crc_update crc p = fold crc_byte p (crc XOR 0xFFFFFFFF) XOR 0xFFFFFFFF"
  unfolding allones by (simp add: crc_update_def)

lemma crc_update_Nil: "crc_update h [] = h"
  by (simp add: crc_update_def)

lemmas crc_defs = crc_update_eval crc_byte_def ieee_table_def tab_step_def
lemmas hex_defs = fmt08X_def hexDigit_def parseCRC_def fromHexChar_def

lemma windowSize_Default: "windowSize DefaultConfig = 30"
  by (simp add: windowSize_def maxCommentSize_def DefaultConfig_def GoStyle_def keyText_def)

lemma style_Default: "CommentStyle DefaultConfig = GoStyle"
  by (simp add: DefaultConfig_def)

lemma buffer_Default: "BufferSize DefaultConfig = 65536"
  by (simp add: DefaultConfig_def)

lemma crc_package_main: "crc_update 0 ''package main'' = 0x7FE7DFB2"
  by (simp add: crc_defs)

lemma crc_package_main_LF: "crc_update 0 (''package main'' @ [LF]) = 0x17C733EC"
  by (simp add: crc_defs)

lemma fmt_7FE7DFB2: "fmt08X 0x7FE7DFB2 = ''7FE7DFB2''"
  by (simp add: hex_defs)

lemma fmt_17C733EC: "fmt08X 0x17C733EC = ''17C733EC''"
  by (simp add: hex_defs)

lemma parse_7FE7DFB2: "parseCRC ''7FE7DFB2'' = Some 0x7FE7DFB2"
  by (simp add: hex_defs)

lemma find_package_main: "FindSubmatchIndex GoStyle (''package main'' @ [LF]) = None"
  by code_simp

lemma find_stamped_package_main:
  "FindSubmatchIndex GoStyle (''in'' @ [LF] @ ''// FileIntegrity: 7FE7DFB2'' @ [LF]) = Some (3, 30, 21, 29)"
  by code_simp

lemma process_package_main:
  "processStream DefaultConfig (fileReader (''package main'' @ [LF]))
     = Some (Inr (False, ''package main'' @ [LF] @ ''// FileIntegrity: 7FE7DFB2'' @ [LF]))"
proof -
  have "naiveProcess DefaultConfig (''package main'' @ [LF])
          = (False, ''package main'' @ [LF] @ ''// FileIntegrity: 7FE7DFB2'' @ [LF])"
    using find_package_main
    by (simp add: naiveProcess_def referenceProcess_def windowSize_Default finalizeWindow_def
        writerCrcPart_def crc_package_main fmt_7FE7DFB2 createComment_def detectLineEnding_def
        style_Default keyText_def crc_update_Nil)
      (simp add: GoStyle_def)
  then show ?thesis
    using processStream_file [of "''package main'' @ [LF]" DefaultConfig]
    by (simp add: windowSize_Default buffer_Default)
qed

lemma verify_package_main:
  "verifyStream DefaultConfig
     (fileReader (''package main'' @ [LF] @ ''// FileIntegrity: 7FE7DFB2'' @ [LF]))
     = Some (Inr True)"
proof -
  have "crc_update (crc_update 0 ''package ma'') ''in'' = 0x7FE7DFB2"
    by (simp add: crc_update_append crc_package_main)
  then have "naiveVerify DefaultConfig (''package main'' @ [LF] @ ''// FileIntegrity: 7FE7DFB2'' @ [LF])
          = Inr True"
    using find_stamped_package_main
    by (simp add: naiveVerify_def referenceVerify_def windowSize_Default verifyWindow_def
        readerCrcPart_def parse_7FE7DFB2 style_Default)
  then show ?thesis
    using verifyStream_file [of "''package main'' @ [LF] @ ''// FileIntegrity: 7FE7DFB2'' @ [LF]" DefaultConfig]
    by (simp add: windowSize_Default buffer_Default)
qed

section \<open>Short reads\<close>

lemma short_reads_panic:
  assumes "c1 \<noteq> []" and "length c1 + length c2 < windowSize c"
    and "int (windowSize c) \<le> BufferSize c"
  shows "processStream c ((c1, ErrNil) # (c2, ErrNil) # r) = Some (Inl SlicePanic)"
    and "verifyStream c ((c1, ErrNil) # (c2, ErrNil) # r) = Some (Inl SlicePanic)"
proof -
  define W where "W = windowSize c"
  define B where "B = nat (BufferSize c)"
  have WB: "W \<le> B" "\<not> BufferSize c < 0" using assms(3) by (simp_all add: W_def B_def)
  have l: "length c1 + length c2 < W" using assms(2) by (simp add: W_def)
  have rd1: "Read ((c1, ErrNil) # (c2, ErrNil) # r) B = ((c1, ErrNil), (c2, ErrNil) # r)"
    using l WB by simp
  have rd2: "Read ((c2, ErrNil) # r) (B - length c1) = ((c2, ErrNil), r)"
    using l WB by simp
  have lb: "length (store (replicate B (CHR 0x00)) 0 c1) = B"
    using l WB by (simp add: store_def)
  show "processStream c ((c1, ErrNil) # (c2, ErrNil) # r) = Some (Inl SlicePanic)"
    using assms(1) WB l rd1 rd2 lb
    apply (simp add: processStream_def Let_def W_def [symmetric] B_def [symmetric])
    apply (subst processLoop.simps, simp add: processStep_def)
    apply (subst processLoop.simps, simp add: processStep_def)
    done
  show "verifyStream c ((c1, ErrNil) # (c2, ErrNil) # r) = Some (Inl SlicePanic)"
    using assms(1) WB l rd1 rd2 lb
    apply (simp add: verifyStream_def Let_def W_def [symmetric] B_def [symmetric])
    apply (subst verifyLoop.simps, simp add: verifyStep_def)
    apply (subst verifyLoop.simps, simp add: verifyStep_def)
    done
qed

lemma one_read_with_EOF:
  assumes "C \<noteq> []" and "int (length C) \<le> BufferSize c"
  shows "processStream c [(C, ErrEOF)] = Some (Inr (finalizeWindow c [] 0 C))"
    and "verifyStream c [(C, ErrEOF)] = Some (verifyWindow c 0 C)"
proof -
  have le: "length C \<le> nat (BufferSize c)" "\<not> BufferSize c < 0" using assms(2) by simp_all
  show "processStream c [(C, ErrEOF)] = Some (Inr (finalizeWindow c [] 0 C))"
    using assms(1) le
    by (simp add: processStream_def Let_def) (subst processLoop.simps, simp add: store_def)
  show "verifyStream c [(C, ErrEOF)] = Some (verifyWindow c 0 C)"
    using assms(1) le
    by (simp add: verifyStream_def Let_def) (subst verifyLoop.simps, simp add: store_def)
qed

text \<open>
  C10 (the claim fails on the code). A stream whose first two reads deliver fewer than
  \<open>windowSize\<close> bytes together, with no end of stream yet, takes the
  subsequent-chunk branch with \<open>n < windowSize\<close>: the slice
  \<^verbatim>\<open>buffer[:n-windowSize]\<close> is out of range and both passes panic. Here the
  default configuration (buffer 65536, window 30) reads one byte at a time.
\<close>

theorem C10_short_reads_panic:
  "processStream DefaultConfig [(''a'', ErrNil), (''b'', ErrNil), (''c'', ErrNil)]
     = Some (Inl SlicePanic)
   \<and> verifyStream DefaultConfig [(''a'', ErrNil), (''b'', ErrNil), (''c'', ErrNil)]
     = Some (Inl SlicePanic)"
  using short_reads_panic [of "''a''" "''b''" DefaultConfig "[(''c'', ErrNil)]"]
  by (simp add: windowSize_Default buffer_Default)

lemma not_markerLineAt: "\<not> markerLineAt st w i \<longleftrightarrow> matchAt st w i = None"
  by (cases "matchAt st w i") (simp_all add: matchAt_iff_markerLineAt [symmetric])

lemma ascii_GoStyle: "asciiStyle GoStyle"
  by (simp add: asciiStyle_def GoStyle_def)

lemma predefined_ascii: "list_all asciiStyle predefined_styles"
  by (simp add: predefined_styles_def asciiStyle_def GoStyle_def CStyle_def PythonStyle_def
      SQLStyle_def HTMLStyle_def ShellStyle_def RubyStyle_def JSStyle_def)

lemma FindSubmatchIndex_marker:
  assumes "FindSubmatchIndex st w = Some (m0, m1, g0, g1)"
  shows "markerLineAt st w m0" "\<forall>j < m0. \<not> markerLineAt st w j"
    "g0 = m0 + length (Prefix st) + length keyText" "g1 = g0 + 8" "g1 \<le> length w"
    "list_all isUpperHex (take 8 (drop g0 w))" "length (take 8 (drop g0 w)) = 8"
proof -
  from FindSubmatchIndex_Some [OF assms] obtain i where
    i: "matchAt st w i = Some (m0, m1, g0, g1)" "\<forall>j < i. matchAt st w j = None" by blast
  note sh = matchAt_shape [OF i(1)]
  have "matchAt st w m0 \<noteq> None" using sh(1) i(1) by simp
  then show "markerLineAt st w m0" by (simp only: matchAt_iff_markerLineAt)
  show "\<forall>j < m0. \<not> markerLineAt st w j"
    unfolding not_markerLineAt using sh(1) i(2) by simp
  from sh show "g0 = m0 + length (Prefix st) + length keyText" "g1 = g0 + 8" "g1 \<le> length w"
    "list_all isUpperHex (take 8 (drop g0 w))" "length (take 8 (drop g0 w)) = 8"
    by simp_all
qed

lemma first_marker_found:
  assumes "markerLineAt st w i" and "\<forall>j < i. \<not> markerLineAt st w j"
  shows "\<exists>m1. FindSubmatchIndex st w
           = Some (i, m1, i + length (Prefix st) + length keyText,
                   i + length (Prefix st) + length keyText + 8)"
proof -
  from assms(1) have "matchAt st w i \<noteq> None"
    using matchAt_iff_markerLineAt by blast
  from assms(2) have nj: "\<forall>j < i. matchAt st w j = None"
    using not_markerLineAt by blast
  from \<open>matchAt st w i \<noteq> None\<close> obtain m where m: "matchAt st w i = Some m" by auto
  obtain m0 m1 g0 g1 where mm: "m = (m0, m1, g0, g1)" by (cases m) auto
  from matchAt_shape(1,2,3) [OF m [unfolded mm]] m mm
  have "matchAt st w i = Some (i, m1, i + length (Prefix st) + length keyText,
                   i + length (Prefix st) + length keyText + 8)"
    by simp
  from FindSubmatchIndex_first [OF this nj] show ?thesis by blast
qed

lemma first_marker_unique:
  assumes "markerLineAt st w i" "\<forall>j < i. \<not> markerLineAt st w j"
    and "markerLineAt st w k" "\<forall>j < k. \<not> markerLineAt st w j"
  shows "i = k"
  using assms by (meson linorder_neqE_nat)

lemma first_marker_exists:
  assumes "markerLineAt st w k"
  shows "\<exists>i. markerLineAt st w i \<and> (\<forall>j < i. \<not> markerLineAt st w j)"
  using assms by (metis exists_least_iff)

lemma verifyWindow_marker:
  assumes "markerLineAt (CommentStyle c) w i" and "\<forall>j < i. \<not> markerLineAt (CommentStyle c) w j"
  shows "verifyWindow c h w =
           Inr (take 8 (drop (i + length (Prefix (CommentStyle c)) + length keyText) w)
                  = fmt08X (crc_update h (stripLineEnding (take i w))))"
proof -
  define g where "g = i + length (Prefix (CommentStyle c)) + length keyText"
  from first_marker_found [OF assms] obtain m1 where
    f: "FindSubmatchIndex (CommentStyle c) w = Some (i, m1, g, g + 8)"
    by (auto simp: g_def)
  note sh = FindSubmatchIndex_marker(6,7) [OF f]
  from upper_hex_is_fmt08X [OF sh(2) sh(1)] obtain v where v: "take 8 (drop g w) = fmt08X v" ..
  have "verifyWindow c h w = Inr (crc_update h (stripLineEnding (take i w)) = v)"
    using f v by (simp add: verifyWindow_def parseCRC_fmt08X readerCrcPart_strip)
  also have "(crc_update h (stripLineEnding (take i w)) = v)
             = (fmt08X v = fmt08X (crc_update h (stripLineEnding (take i w))))"
    using fmt08X_inj by auto
  finally show ?thesis by (simp add: v g_def [symmetric])
qed

lemma verifyWindow_no_marker:
  "verifyWindow c h w = Inl NoComment \<longleftrightarrow> (\<forall>i. \<not> markerLineAt (CommentStyle c) w i)"
proof (cases "\<exists>k. markerLineAt (CommentStyle c) w k")
  case True
  then obtain i where "markerLineAt (CommentStyle c) w i" "\<forall>j < i. \<not> markerLineAt (CommentStyle c) w j"
    using first_marker_exists by blast
  from verifyWindow_marker [OF this, of h] have "verifyWindow c h w \<noteq> Inl NoComment" by simp
  with True show ?thesis by blast
next
  case False
  then have "\<forall>i. matchAt (CommentStyle c) w i = None"
    using not_markerLineAt by blast
  then have "FindSubmatchIndex (CommentStyle c) w = None"
    using FindSubmatchIndex_None by blast
  with False show ?thesis by (simp add: verifyWindow_def)
qed

lemma first_marker_cases:
  assumes i: "markerLineAt st w i" "\<forall>j < i. \<not> markerLineAt st w j"
  shows "(\<exists>k. markerLineAt st w k \<and> (\<forall>j < k. \<not> markerLineAt st w j) \<and> D k) \<longleftrightarrow> D i"
proof
  assume "\<exists>k. markerLineAt st w k \<and> (\<forall>j < k. \<not> markerLineAt st w j) \<and> D k"
  then obtain k where k: "markerLineAt st w k" "\<forall>j < k. \<not> markerLineAt st w j" "D k" by blast
  from first_marker_unique [OF k(1,2) i] k(3) show "D i" by simp
next
  assume "D i"
  with i show "\<exists>k. markerLineAt st w k \<and> (\<forall>j < k. \<not> markerLineAt st w j) \<and> D k" by blast
qed

lemma find_lowercase_marker:
  "FindSubmatchIndex GoStyle (''// FileIntegrity: 7fe7dfb2'' @ [LF]) = None"
  by code_simp

lemma find_two_markers:
  "FindSubmatchIndex GoStyle
     (''// FileIntegrity: 11111111'' @ [LF] @ ''// FileIntegrity: 22222222'' @ [LF])
     = Some (0, 26, 18, 26)"
  by code_simp

lemma matchAt_second_marker:
  "matchAt GoStyle
     (''// FileIntegrity: 11111111'' @ [LF] @ ''// FileIntegrity: 22222222'' @ [LF]) 27
     = Some (27, 54, 45, 53)"
  by code_simp

text \<open>
  C5, as stated, fails: in a window that holds two marker lines the matcher returns
  the first one (offset 0), not the last one (offset 27).
\<close>

theorem C5_last_occurrence_counterexample:
  "FindSubmatchIndex GoStyle
     (''// FileIntegrity: 11111111'' @ [LF] @ ''// FileIntegrity: 22222222'' @ [LF])
     = Some (0, 26, 18, 26)
   \<and> matchAt GoStyle
     (''// FileIntegrity: 11111111'' @ [LF] @ ''// FileIntegrity: 22222222'' @ [LF]) 27
     = Some (27, 54, 45, 53)"
  using find_two_markers matchAt_second_marker by simp

text \<open>
  C5, amended. For every ASCII style and every window the matcher finds the first
  (leftmost) offset that holds a marker line: at the start of the window or after a line
  feed, prefix, \<^verbatim>\<open>FileIntegrity: \<close>, exactly eight upper-case hexadecimal digits,
  suffix, an optional CR and an optional LF, up to a line end. It reports the group as
  the eight digits, which decode to the value that \<^verbatim>\<open>%08X\<close> prints as those digits. It
  reports nothing exactly when no offset holds such a line, so a payload of another
  length, in lower case or with other characters is not found.
\<close>

theorem C5_leftmost_marker:
  assumes "asciiStyle st"
  shows "(FindSubmatchIndex st w = None \<longleftrightarrow> (\<forall>i. \<not> markerLineAt st w i))
   \<and> (\<forall>m0 m1 g0 g1. FindSubmatchIndex st w = Some (m0, m1, g0, g1) \<longrightarrow>
         markerLineAt st w m0 \<and> (\<forall>j < m0. \<not> markerLineAt st w j)
         \<and> g0 = m0 + length (Prefix st) + length keyText \<and> g1 = g0 + 8 \<and> g1 \<le> length w
         \<and> list_all isUpperHex (take (g1 - g0) (drop g0 w))
         \<and> (\<exists>v. parseCRC (take (g1 - g0) (drop g0 w)) = Some v
                \<and> fmt08X v = take (g1 - g0) (drop g0 w)))
   \<and> (\<forall>i. markerLineAt st w i \<and> (\<forall>j < i. \<not> markerLineAt st w j) \<longrightarrow>
         (\<exists>m1 g0 g1. FindSubmatchIndex st w = Some (i, m1, g0, g1)))"
proof -
  have none: "FindSubmatchIndex st w = None \<longleftrightarrow> (\<forall>i. \<not> markerLineAt st w i)"
    unfolding not_markerLineAt by (rule FindSubmatchIndex_None)
  have some: "markerLineAt st w m0 \<and> (\<forall>j < m0. \<not> markerLineAt st w j)
         \<and> g0 = m0 + length (Prefix st) + length keyText \<and> g1 = g0 + 8 \<and> g1 \<le> length w
         \<and> list_all isUpperHex (take (g1 - g0) (drop g0 w))
         \<and> (\<exists>v. parseCRC (take (g1 - g0) (drop g0 w)) = Some v
                \<and> fmt08X v = take (g1 - g0) (drop g0 w))"
    if f: "FindSubmatchIndex st w = Some (m0, m1, g0, g1)" for m0 m1 g0 g1
  proof -
    note sh = FindSubmatchIndex_marker [OF f]
    from upper_hex_is_fmt08X [OF sh(7) sh(6)] obtain v where v: "take 8 (drop g0 w) = fmt08X v" ..
    have g: "g1 - g0 = 8" using sh(4) by simp
    have "parseCRC (take (g1 - g0) (drop g0 w)) = Some v \<and> fmt08X v = take (g1 - g0) (drop g0 w)"
      unfolding g v by (simp add: parseCRC_fmt08X)
    then have c: "\<exists>v. parseCRC (take (g1 - g0) (drop g0 w)) = Some v
                \<and> fmt08X v = take (g1 - g0) (drop g0 w)" ..
    from sh(1-6) c g show ?thesis by simp
  qed
  have first: "\<exists>m1 g0 g1. FindSubmatchIndex st w = Some (i, m1, g0, g1)"
    if "markerLineAt st w i \<and> (\<forall>j < i. \<not> markerLineAt st w j)" for i
    using first_marker_found [of st w i] that by blast
  from none some first show ?thesis by blast
qed

theorem C5_leftmost_marker_witness:
  "asciiStyle GoStyle
   \<and> FindSubmatchIndex GoStyle (''package main'' @ [LF]) = None
   \<and> \<not> markerLineAt GoStyle (''package main'' @ [LF]) 0
   \<and> FindSubmatchIndex GoStyle (''// FileIntegrity: 7fe7dfb2'' @ [LF]) = None
   \<and> \<not> markerLineAt GoStyle (''// FileIntegrity: 7fe7dfb2'' @ [LF]) 0
   \<and> FindSubmatchIndex GoStyle
        (''in'' @ [LF] @ ''// FileIntegrity: 7FE7DFB2'' @ [LF]) = Some (3, 30, 21, 29)
   \<and> markerLineAt GoStyle (''in'' @ [LF] @ ''// FileIntegrity: 7FE7DFB2'' @ [LF]) 3
   \<and> \<not> markerLineAt GoStyle (''in'' @ [LF] @ ''// FileIntegrity: 7FE7DFB2'' @ [LF]) 0"
proof -
  note a = C5_leftmost_marker [OF ascii_GoStyle, of "''package main'' @ [LF]"]
  note l = C5_leftmost_marker [OF ascii_GoStyle, of "''// FileIntegrity: 7fe7dfb2'' @ [LF]"]
  note b = C5_leftmost_marker [OF ascii_GoStyle,
      of "''in'' @ [LF] @ ''// FileIntegrity: 7FE7DFB2'' @ [LF]"]
  have 1: "\<not> markerLineAt GoStyle (''package main'' @ [LF]) 0"
    using a find_package_main by blast
  have 2: "markerLineAt GoStyle (''in'' @ [LF] @ ''// FileIntegrity: 7FE7DFB2'' @ [LF]) 3"
    using b find_stamped_package_main by blast
  have "(0::nat) < 3" by simp
  then have 3: "\<not> markerLineAt GoStyle (''in'' @ [LF] @ ''// FileIntegrity: 7FE7DFB2'' @ [LF]) 0"
    using b find_stamped_package_main by blast
  have 4: "\<not> markerLineAt GoStyle (''// FileIntegrity: 7fe7dfb2'' @ [LF]) 0"
    using l find_lowercase_marker by blast
  from 1 2 3 4 ascii_GoStyle find_package_main find_stamped_package_main find_lowercase_marker
  show ?thesis by blast
qed

section \<open>The final window\<close>

lemma stripLineEnding_CRLF: "stripLineEnding (b @ [CR, LF]) = b"
  by (simp add: stripLineEnding_def butlast_append)

lemma stripLineEnding_LF: "b = [] \<or> last b \<noteq> CR \<Longrightarrow> stripLineEnding (b @ [LF]) = b"
  by (auto simp: stripLineEnding_def butlast_append)

lemma stripLineEnding_none: "b = [] \<or> last b \<noteq> LF \<Longrightarrow> stripLineEnding b = b"
  by (auto simp: stripLineEnding_def)

lemma detectFrom_cases: "detectFrom p xs = [LF] \<or> detectFrom p xs = [CR, LF]"
  by (induction xs arbitrary: p) auto

lemma find_stale_marker:
  "FindSubmatchIndex GoStyle (''// FileIntegrity: 00000001'' @ [LF]) = Some (0, 27, 18, 26)"
  by code_simp

lemma parse_00000001: "parseCRC ''00000001'' = Some 1"
  by (simp add: hex_defs)

text \<open>
  C6, as stated, fails for an empty content part: it has no trailing line ending, yet no
  line ending is inserted before the new marker.
\<close>

theorem C6_empty_content_counterexample:
  "contentPartOf DefaultConfig (''// FileIntegrity: 00000001'' @ [LF]) = []
   \<and> finalizeWindow DefaultConfig [] 0 (''// FileIntegrity: 00000001'' @ [LF])
        = (False, ''// FileIntegrity: 00000000'' @ [LF])"
  using find_stale_marker
  by (simp add: contentPartOf_def finalizeWindow_def style_Default writerCrcPart_def
      crc_update_Nil parse_00000001 fmt08X_0 createComment_def keyText_def detectLineEnding_def)
    (simp add: GoStyle_def)

text \<open>
  C6, amended. The Writer checksums the content part of the final window without one
  trailing line ending (a CRLF as a whole, else a lone LF) and all of it when it has none;
  when the content part is not empty and does not end in LF, and the run is not a no-op,
  it writes exactly one detected line ending (LF or CRLF) between the content part and
  the new marker. The Reader checksums the same bytes of the same content part.
\<close>

theorem C6_checksum_coverage:
  "finalizeWindow c d h w =
     (let cp = contentPartOf c w; le = detectLineEnding w;
          calc = crc_update h (stripLineEnding cp)
      in if existingCRC c w = Some calc then (True, d @ w)
         else (False, d @ cp @ (if cp \<noteq> [] \<and> last cp \<noteq> LF then le else [])
                          @ createComment c calc le))
   \<and> verifyWindow c h w =
     (case existingCRC c w of
        None \<Rightarrow> Inl NoComment
      | Some stored \<Rightarrow> Inr (crc_update h (stripLineEnding (contentPartOf c w)) = stored))
   \<and> stripLineEnding (b @ [CR, LF]) = b
   \<and> (b = [] \<or> last b \<noteq> CR \<longrightarrow> stripLineEnding (b @ [LF]) = b)
   \<and> (b = [] \<or> last b \<noteq> LF \<longrightarrow> stripLineEnding b = b)
   \<and> (detectLineEnding w = [LF] \<or> detectLineEnding w = [CR, LF])"
  using finalizeWindow_alt [of c d h w] verifyWindow_alt [of c h w] stripLineEnding_CRLF [of b]
    stripLineEnding_LF [of b] stripLineEnding_none [of b] detectFrom_cases [of None w]
  by (simp add: detectLineEnding_def)

lemma find_abcr: "FindSubmatchIndex GoStyle (''abc'' @ [CR]) = None"
  by code_simp

lemma crc_abcr: "crc_update 0 [CHR ''a'', CHR ''b'', CHR ''c'', CR] = 0xD9EC14ED"
  by (simp add: crc_defs)

lemma crc_abc: "crc_update 0 ''abc'' = 0x352441C2"
  by (simp add: crc_defs)

lemma fmt_D9EC14ED: "fmt08X 0xD9EC14ED = ''D9EC14ED''"
  by (simp add: hex_defs)

lemma fmt_352441C2: "fmt08X 0x352441C2 = ''352441C2''"
  by (simp add: hex_defs)

lemma parse_D9EC14ED: "parseCRC ''D9EC14ED'' = Some 0xD9EC14ED"
  by (simp add: hex_defs)

theorem C6_checksum_coverage_witness:
  "finalizeWindow DefaultConfig [] 0 (''abc'' @ [CR])
     = (False, ''abc'' @ [CR] @ [LF] @ ''// FileIntegrity: D9EC14ED'' @ [LF])
   \<and> stripLineEnding (''abc'' @ [CR, LF]) = ''abc''
   \<and> stripLineEnding (''abc'' @ [LF]) = ''abc''
   \<and> stripLineEnding (''abc'' @ [CR]) = ''abc'' @ [CR]"
proof -
  note a = C6_checksum_coverage [of DefaultConfig "[]" 0 "''abc'' @ [CR]" "''abc''"]
  note b = C6_checksum_coverage [of DefaultConfig "[]" 0 "''abc'' @ [CR]" "''abc'' @ [CR]"]
  have cp: "contentPartOf DefaultConfig (''abc'' @ [CR]) = ''abc'' @ [CR]"
    and ex: "existingCRC DefaultConfig (''abc'' @ [CR]) = None"
    using find_abcr by (simp_all add: contentPartOf_def existingCRC_def style_Default)
  have s2: "stripLineEnding (''abc'' @ [CR, LF]) = ''abc''" using a by blast
  have "last ''abc'' \<noteq> CR" by simp
  then have s3: "stripLineEnding (''abc'' @ [LF]) = ''abc''" using a by blast
  have "last (''abc'' @ [CR]) \<noteq> LF" by simp
  then have s4: "stripLineEnding (''abc'' @ [CR]) = ''abc'' @ [CR]" using b by blast
  have "finalizeWindow DefaultConfig [] 0 (''abc'' @ [CR])
     = (False, ''abc'' @ [CR] @ [LF] @ ''// FileIntegrity: D9EC14ED'' @ [LF])"
    using a [THEN conjunct1]
    unfolding cp ex s4 Let_def
    by (simp add: crc_abcr fmt_D9EC14ED createComment_def keyText_def detectLineEnding_def
        style_Default)
      (simp add: GoStyle_def)
  with s2 s3 s4 show ?thesis by blast
qed

lemma find_stamped_abc:
  "FindSubmatchIndex GoStyle (''abc'' @ [LF] @ ''// FileIntegrity: 352441C2'' @ [LF])
     = Some (4, 31, 22, 30)"
  by code_simp

lemma find_tampered_abc:
  "FindSubmatchIndex GoStyle (''abd'' @ [LF] @ ''// FileIntegrity: 352441C2'' @ [LF])
     = Some (4, 31, 22, 30)"
  by code_simp

lemma find_lowercase_abc:
  "FindSubmatchIndex GoStyle (''abc'' @ [LF] @ ''// FileIntegrity: 352441c2'' @ [LF]) = None"
  by code_simp

lemma crc_abd: "crc_update 0 ''abd'' = 0xAB40D461"
  by (simp add: crc_defs)

lemma fmt_AB40D461: "fmt08X 0xAB40D461 = ''AB40D461''"
  by (simp add: hex_defs)

text \<open>
  C8. For an ASCII style, on a final window the Reader returns valid = true exactly when
  the window holds a marker line and the eight digits of the first one are the computed
  checksum as \<^verbatim>\<open>%08X\<close> prints it, the checksum being that of the bytes read before
  the window followed by the content before the marker without its one trailing line
  ending. It returns valid = false without an error exactly when the first marker line's
  digits are others. It returns an error exactly when no offset of the window holds a
  marker line (none at all, or one with a malformed payload), and the error is then
  \<^verbatim>\<open>no integrity comment found\<close>.
\<close>

theorem C8_reader_trichotomy:
  assumes "asciiStyle (CommentStyle c)"
  shows "(verifyWindow c h w = Inr True \<longleftrightarrow>
            (\<exists>i. markerLineAt (CommentStyle c) w i \<and> (\<forall>j < i. \<not> markerLineAt (CommentStyle c) w j)
               \<and> take 8 (drop (i + length (Prefix (CommentStyle c)) + length keyText) w)
                   = fmt08X (crc_update h (stripLineEnding (take i w)))))
       \<and> (verifyWindow c h w = Inr False \<longleftrightarrow>
            (\<exists>i. markerLineAt (CommentStyle c) w i \<and> (\<forall>j < i. \<not> markerLineAt (CommentStyle c) w j)
               \<and> take 8 (drop (i + length (Prefix (CommentStyle c)) + length keyText) w)
                   \<noteq> fmt08X (crc_update h (stripLineEnding (take i w)))))
       \<and> ((\<exists>e. verifyWindow c h w = Inl e) \<longleftrightarrow> (\<forall>i. \<not> markerLineAt (CommentStyle c) w i))
       \<and> (\<forall>e. verifyWindow c h w = Inl e \<longrightarrow> e = NoComment)"
proof (cases "\<exists>k. markerLineAt (CommentStyle c) w k")
  case True
  then obtain i where i: "markerLineAt (CommentStyle c) w i" "\<forall>j < i. \<not> markerLineAt (CommentStyle c) w j"
    using first_marker_exists by blast
  note v = verifyWindow_marker [OF i, of h]
  have 1: "verifyWindow c h w = Inr True \<longleftrightarrow>
            (\<exists>i. markerLineAt (CommentStyle c) w i \<and> (\<forall>j < i. \<not> markerLineAt (CommentStyle c) w j)
               \<and> take 8 (drop (i + length (Prefix (CommentStyle c)) + length keyText) w)
                   = fmt08X (crc_update h (stripLineEnding (take i w))))"
    unfolding first_marker_cases [OF i] v by simp
  have 2: "verifyWindow c h w = Inr False \<longleftrightarrow>
            (\<exists>i. markerLineAt (CommentStyle c) w i \<and> (\<forall>j < i. \<not> markerLineAt (CommentStyle c) w j)
               \<and> take 8 (drop (i + length (Prefix (CommentStyle c)) + length keyText) w)
                   \<noteq> fmt08X (crc_update h (stripLineEnding (take i w))))"
    unfolding first_marker_cases [OF i] v by simp
  have 3: "(\<exists>e. verifyWindow c h w = Inl e) \<longleftrightarrow> (\<forall>i. \<not> markerLineAt (CommentStyle c) w i)"
    unfolding v using i(1) by auto
  have 4: "\<forall>e. verifyWindow c h w = Inl e \<longrightarrow> e = NoComment"
    unfolding v by simp
  from 1 2 3 4 show ?thesis by blast
next
  case False
  then have n: "verifyWindow c h w = Inl NoComment"
    using verifyWindow_no_marker by blast
  have 1: "verifyWindow c h w \<noteq> Inr True" "verifyWindow c h w \<noteq> Inr False"
    and 3: "\<exists>e. verifyWindow c h w = Inl e"
    and 4: "\<forall>e. verifyWindow c h w = Inl e \<longrightarrow> e = NoComment"
    unfolding n by simp_all
  from False 1 3 4 show ?thesis by blast
qed

theorem C8_reader_trichotomy_witness:
  "asciiStyle (CommentStyle DefaultConfig)
   \<and> verifyWindow DefaultConfig 0 (''abc'' @ [LF] @ ''// FileIntegrity: 352441C2'' @ [LF]) = Inr True
   \<and> verifyWindow DefaultConfig 0 (''abd'' @ [LF] @ ''// FileIntegrity: 352441C2'' @ [LF]) = Inr False
   \<and> verifyWindow DefaultConfig 0 (''abc'' @ [LF] @ ''// FileIntegrity: 352441c2'' @ [LF])
       = Inl NoComment"
proof -
  have asc: "asciiStyle (CommentStyle DefaultConfig)"
    by (simp add: style_Default ascii_GoStyle)
  note a = C8_reader_trichotomy [OF asc, of 0 "''abc'' @ [LF] @ ''// FileIntegrity: 352441C2'' @ [LF]",
      unfolded style_Default]
  note b = C8_reader_trichotomy [OF asc, of 0 "''abd'' @ [LF] @ ''// FileIntegrity: 352441C2'' @ [LF]",
      unfolded style_Default]
  note c = C8_reader_trichotomy [OF asc, of 0 "''abc'' @ [LF] @ ''// FileIntegrity: 352441c2'' @ [LF]",
      unfolded style_Default]
  have a1: "take 8 (drop (4 + length (Prefix GoStyle) + length keyText)
               (''abc'' @ [LF] @ ''// FileIntegrity: 352441C2'' @ [LF]))
            = fmt08X (crc_update 0 (stripLineEnding
                (take 4 (''abc'' @ [LF] @ ''// FileIntegrity: 352441C2'' @ [LF]))))"
    by (simp add: GoStyle_def keyText_def stripLineEnding_def crc_abc fmt_352441C2)
  have b1: "take 8 (drop (4 + length (Prefix GoStyle) + length keyText)
               (''abd'' @ [LF] @ ''// FileIntegrity: 352441C2'' @ [LF]))
            \<noteq> fmt08X (crc_update 0 (stripLineEnding
                (take 4 (''abd'' @ [LF] @ ''// FileIntegrity: 352441C2'' @ [LF]))))"
    by (simp add: GoStyle_def keyText_def stripLineEnding_def crc_abd fmt_AB40D461)
  have 1: "verifyWindow DefaultConfig 0 (''abc'' @ [LF] @ ''// FileIntegrity: 352441C2'' @ [LF]) = Inr True"
    using a a1 FindSubmatchIndex_marker(1,2) [OF find_stamped_abc] by blast
  have 2: "verifyWindow DefaultConfig 0 (''abd'' @ [LF] @ ''// FileIntegrity: 352441C2'' @ [LF]) = Inr False"
    using b b1 FindSubmatchIndex_marker(1,2) [OF find_tampered_abc] by blast
  have "\<forall>i. \<not> markerLineAt GoStyle (''abc'' @ [LF] @ ''// FileIntegrity: 352441c2'' @ [LF]) i"
    unfolding not_markerLineAt using find_lowercase_abc FindSubmatchIndex_None by blast
  then have 3: "verifyWindow DefaultConfig 0 (''abc'' @ [LF] @ ''// FileIntegrity: 352441c2'' @ [LF])
       = Inl NoComment"
    using c by blast
  from asc 1 2 3 show ?thesis by blast
qed

section \<open>Round trip and idempotence at concrete inputs\<close>

lemma find_stamped_abcr:
  "FindSubmatchIndex GoStyle (''c'' @ [CR, LF] @ ''// FileIntegrity: D9EC14ED'' @ [LF])
     = Some (3, 30, 21, 29)"
  by code_simp

lemma find_glued:
  "FindSubmatchIndex GoStyle (''// FileIntegrity: 12345678'' @ [LF] @ ''ab'' @ [LF])
     = Some (0, 26, 18, 26)"
  by code_simp

lemma find_glued_out:
  "FindSubmatchIndex GoStyle (''llo// FileIntegrity: 3610A686'' @ [LF]) = None"
  by code_simp

lemma crc_hello: "crc_update 0 ''hello'' = 0x3610A686"
  by (simp add: crc_defs)

lemma fmt_3610A686: "fmt08X 0x3610A686 = ''3610A686''"
  by (simp add: hex_defs)

lemma parse_12345678: "parseCRC ''12345678'' = Some 0x12345678"
  by (simp add: hex_defs)

lemma process_abcr:
  "processStream DefaultConfig (fileReader (''abc'' @ [CR]))
     = Some (Inr (False, ''abc'' @ [CR, LF] @ ''// FileIntegrity: D9EC14ED'' @ [LF]))"
proof -
  have "naiveProcess DefaultConfig (''abc'' @ [CR])
          = (False, ''abc'' @ [CR, LF] @ ''// FileIntegrity: D9EC14ED'' @ [LF])"
    using find_abcr
    by (simp add: naiveProcess_def referenceProcess_def windowSize_Default finalizeWindow_def
        writerCrcPart_def crc_abcr fmt_D9EC14ED createComment_def detectLineEnding_def
        style_Default keyText_def crc_update_Nil)
      (simp add: GoStyle_def)
  then show ?thesis
    using processStream_file [of "''abc'' @ [CR]" DefaultConfig]
    by (simp add: windowSize_Default buffer_Default)
qed

lemma verify_abcr:
  "verifyStream DefaultConfig
     (fileReader (''abc'' @ [CR, LF] @ ''// FileIntegrity: D9EC14ED'' @ [LF]))
     = Some (Inr False)"
proof -
  have "crc_update (crc_update 0 ''ab'') ''c'' = 0x352441C2"
    by (simp add: crc_update_append crc_abc)
  then have "naiveVerify DefaultConfig (''abc'' @ [CR, LF] @ ''// FileIntegrity: D9EC14ED'' @ [LF])
          = Inr False"
    using find_stamped_abcr
    by (simp add: naiveVerify_def referenceVerify_def windowSize_Default verifyWindow_def
        readerCrcPart_def parse_D9EC14ED style_Default)
  then show ?thesis
    using verifyStream_file [of "''abc'' @ [CR, LF] @ ''// FileIntegrity: D9EC14ED'' @ [LF]" DefaultConfig]
    by (simp add: windowSize_Default buffer_Default)
qed

lemma process_glued:
  "processStream DefaultConfig
     (fileReader (''hello// FileIntegrity: 12345678'' @ [LF] @ ''ab'' @ [LF]))
     = Some (Inr (False, ''hello// FileIntegrity: 3610A686'' @ [LF]))"
proof -
  have "naiveProcess DefaultConfig (''hello// FileIntegrity: 12345678'' @ [LF] @ ''ab'' @ [LF])
          = (False, ''hello// FileIntegrity: 3610A686'' @ [LF])"
    using find_glued
    by (simp add: naiveProcess_def referenceProcess_def windowSize_Default finalizeWindow_def
        writerCrcPart_def crc_hello fmt_3610A686 parse_12345678 createComment_def
        detectLineEnding_def style_Default keyText_def crc_update_Nil)
      (simp add: GoStyle_def)
  then show ?thesis
    using processStream_file [of "''hello// FileIntegrity: 12345678'' @ [LF] @ ''ab'' @ [LF]" DefaultConfig]
    by (simp add: windowSize_Default buffer_Default)
qed

lemma verify_glued:
  "verifyStream DefaultConfig (fileReader (''hello// FileIntegrity: 3610A686'' @ [LF]))
     = Some (Inl NoComment)"
proof -
  have "naiveVerify DefaultConfig (''hello// FileIntegrity: 3610A686'' @ [LF]) = Inl NoComment"
    using find_glued_out
    by (simp add: naiveVerify_def referenceVerify_def windowSize_Default verifyWindow_def
        style_Default)
  then show ?thesis
    using verifyStream_file [of "''hello// FileIntegrity: 3610A686'' @ [LF]" DefaultConfig]
    by (simp add: windowSize_Default buffer_Default)
qed

lemma process_abcr_again:
  "processStream DefaultConfig
     (fileReader (''abc'' @ [CR, LF] @ ''// FileIntegrity: D9EC14ED'' @ [LF]))
     = Some (Inr (False, ''abc'' @ [CR, LF] @ ''// FileIntegrity: 352441C2'' @ [CR, LF]))"
proof -
  have "crc_update (crc_update 0 ''ab'') ''c'' = 0x352441C2"
    by (simp add: crc_update_append crc_abc)
  then have "naiveProcess DefaultConfig (''abc'' @ [CR, LF] @ ''// FileIntegrity: D9EC14ED'' @ [LF])
          = (False, ''abc'' @ [CR, LF] @ ''// FileIntegrity: 352441C2'' @ [CR, LF])"
    using find_stamped_abcr
    by (simp add: naiveProcess_def referenceProcess_def windowSize_Default finalizeWindow_def
        writerCrcPart_def fmt_352441C2 parse_D9EC14ED createComment_def
        detectLineEnding_def style_Default keyText_def)
      (simp add: GoStyle_def)
  then show ?thesis
    using processStream_file [of "''abc'' @ [CR, LF] @ ''// FileIntegrity: D9EC14ED'' @ [LF]" DefaultConfig]
    by (simp add: windowSize_Default buffer_Default)
qed

text \<open>
  C1 (the claim fails on the code). Two inputs on which verifying the Writer's output
  does not give valid = true. A file that ends in a bare CR: the Writer checksums the CR
  and adds LF, the Reader then strips CR and LF together and returns valid = false. A
  file whose last 30 bytes start with a stale marker that is not at a line start of the
  file: the Writer drops what follows it and writes the new marker directly after
  \<^verbatim>\<open>hello\<close>, where the Reader cannot find it.
\<close>

theorem C1_round_trip_fails:
  "processStream DefaultConfig (fileReader (''abc'' @ [CR]))
     = Some (Inr (False, ''abc'' @ [CR, LF] @ ''// FileIntegrity: D9EC14ED'' @ [LF]))
   \<and> verifyStream DefaultConfig
        (fileReader (''abc'' @ [CR, LF] @ ''// FileIntegrity: D9EC14ED'' @ [LF]))
     = Some (Inr False)
   \<and> processStream DefaultConfig
        (fileReader (''hello// FileIntegrity: 12345678'' @ [LF] @ ''ab'' @ [LF]))
     = Some (Inr (False, ''hello// FileIntegrity: 3610A686'' @ [LF]))
   \<and> verifyStream DefaultConfig (fileReader (''hello// FileIntegrity: 3610A686'' @ [LF]))
     = Some (Inl NoComment)"
  using process_abcr verify_abcr process_glued verify_glued by simp

text \<open>
  C2, as stated, fails: the output has no blank line before the marker, and the
  checksum is not that of all 13 bytes.
\<close>

theorem C2_blank_line_counterexample:
  "processStream DefaultConfig (fileReader (''package main'' @ [LF]))
     \<noteq> Some (Inr (False, ''package main'' @ [LF, LF] @ ''// FileIntegrity: ''
                 @ fmt08X (crc_update 0 (''package main'' @ [LF])) @ [LF]))"
  using process_package_main by simp

text \<open>
  C2, amended. Stamping \<^verbatim>\<open>"package main\n"\<close> with the default (Go) configuration
  writes \<^verbatim>\<open>"package main\n// FileIntegrity: 7FE7DFB2\n"\<close> and reports a modification,
  where 7FE7DFB2 is the CRC-32/IEEE of the 12 bytes \<^verbatim>\<open>"package main"\<close> (the trailing
  line ending is not checksummed); verifying that output returns valid = true.
\<close>

theorem C2_go_scenario:
  "processStream DefaultConfig (fileReader (''package main'' @ [LF]))
     = Some (Inr (False, ''package main'' @ [LF] @ ''// FileIntegrity: 7FE7DFB2'' @ [LF]))
   \<and> fmt08X (crc_update 0 ''package main'') = ''7FE7DFB2''
   \<and> verifyStream DefaultConfig
        (fileReader (''package main'' @ [LF] @ ''// FileIntegrity: 7FE7DFB2'' @ [LF]))
     = Some (Inr True)"
  using process_package_main verify_package_main
  by (simp add: crc_package_main fmt_7FE7DFB2)

text \<open>
  C3 (the claim fails on the code). On a file that ends in a bare CR the second
  application is not a no-op: it computes another checksum and writes another marker,
  now ended by CRLF.
\<close>

theorem C3_second_run_rewrites:
  "processStream DefaultConfig (fileReader (''abc'' @ [CR]))
     = Some (Inr (False, ''abc'' @ [CR, LF] @ ''// FileIntegrity: D9EC14ED'' @ [LF]))
   \<and> processStream DefaultConfig
        (fileReader (''abc'' @ [CR, LF] @ ''// FileIntegrity: D9EC14ED'' @ [LF]))
     = Some (Inr (False, ''abc'' @ [CR, LF] @ ''// FileIntegrity: 352441C2'' @ [CR, LF]))"
  using process_abcr process_abcr_again by simp

section \<open>Streaming refinement and the no-op frame\<close>

lemma cfg64_simps: "CommentStyle cfg64 = GoStyle" "BufferSize cfg64 = 64" "windowSize cfg64 = 30"
  by (simp_all add: cfg64_def windowSize_def maxCommentSize_def GoStyle_def keyText_def)

lemma cfg30_simps: "CommentStyle cfg30 = GoStyle" "BufferSize cfg30 = 30" "windowSize cfg30 = 30"
  by (simp_all add: cfg30_def windowSize_def maxCommentSize_def GoStyle_def keyText_def)

lemma find_early_marker:
  "FindSubmatchIndex GoStyle (''// FileIntegrity: 00000000'' @ [LF] @ ''abcd'' @ [LF])
     = Some (0, 26, 18, 26)"
  by code_simp

lemma find_early_marker_window:
  "FindSubmatchIndex GoStyle ('' FileIntegrity: 00000000'' @ [LF] @ ''abcd'' @ [LF]) = None"
  by code_simp

lemma parse_00000000: "parseCRC ''00000000'' = Some 0"
  by (simp add: hex_defs)

lemma crc_early_marker:
  "crc_update 0 [CHR ''/'', CHR ''/'', CHR '' '', CHR ''F'', CHR ''i'', CHR ''l'', CHR ''e'',
     CHR ''I'', CHR ''n'', CHR ''t'', CHR ''e'', CHR ''g'', CHR ''r'', CHR ''i'', CHR ''t'',
     CHR ''y'', CHR '':'', CHR '' '', CHR ''0'', CHR ''0'', CHR ''0'', CHR ''0'', CHR ''0'',
     CHR ''0'', CHR ''0'', CHR ''0'', LF, CHR ''a'', CHR ''b'', CHR ''c'', CHR ''d'']
   = 0x8A815DB0"
  by (simp add: crc_defs)

lemma fmt_8A815DB0: "fmt08X 0x8A815DB0 = ''8A815DB0''"
  by (simp add: hex_defs)

lemma one_read_early_marker:
  "processStream cfg64 [(''// FileIntegrity: 00000000'' @ [LF] @ ''abcd'' @ [LF], ErrEOF)]
     = Some (Inr (True, ''// FileIntegrity: 00000000'' @ [LF] @ ''abcd'' @ [LF]))"
proof -
  have "finalizeWindow cfg64 [] 0 (''// FileIntegrity: 00000000'' @ [LF] @ ''abcd'' @ [LF])
          = (True, ''// FileIntegrity: 00000000'' @ [LF] @ ''abcd'' @ [LF])"
    using find_early_marker
    by (simp add: finalizeWindow_def cfg64_simps writerCrcPart_def parse_00000000 crc_update_Nil)
  then show ?thesis
    using one_read_with_EOF(1) [of "''// FileIntegrity: 00000000'' @ [LF] @ ''abcd'' @ [LF]" cfg64]
    by (simp add: cfg64_simps)
qed

lemma naive_early_marker:
  "naiveProcess cfg64 (''// FileIntegrity: 00000000'' @ [LF] @ ''abcd'' @ [LF])
     = (False, ''// FileIntegrity: 00000000'' @ [LF] @ ''abcd'' @ [LF]
                 @ ''// FileIntegrity: 8A815DB0'' @ [LF])"
proof -
  have "crc_update (crc_update 0 ''//'') ('' FileIntegrity: 00000000'' @ [LF] @ ''abcd'')
          = 0x8A815DB0"
    by (simp add: crc_update_append crc_early_marker)
  then show ?thesis
    using find_early_marker_window
    by (simp add: naiveProcess_def referenceProcess_def cfg64_simps finalizeWindow_def
        writerCrcPart_def fmt_8A815DB0 createComment_def detectLineEnding_def keyText_def)
      (simp add: GoStyle_def)
qed

lemma find_abc: "FindSubmatchIndex GoStyle ''abc'' = None"
  by code_simp

lemma empty_first_read:
  "processStream cfg64 [([], ErrNil), (''abc'', ErrNil), ([], ErrEOF)]
     = Some (Inr (False, ''// FileIntegrity: 00000000'' @ [LF]))"
  by (simp add: processStream_def cfg64_simps finalizeEmpty_def createComment_def fmt08X_0
      keyText_def GoStyle_def)

lemma naive_abc:
  "naiveProcess cfg64 ''abc'' = (False, ''abc'' @ [LF] @ ''// FileIntegrity: 352441C2'' @ [LF])"
  using find_abc
  by (simp add: naiveProcess_def referenceProcess_def cfg64_simps finalizeWindow_def
      writerCrcPart_def crc_update_Nil crc_abc fmt_352441C2 createComment_def
      detectLineEnding_def keyText_def)
    (simp add: GoStyle_def)

text \<open>
  C4, as stated, fails. A reader that reports the end of the stream together with the
  data leaves the whole content as the final window, where a marker line early in the
  content is found: the run is a no-op, while the naive reference (and a regular file's
  chunking) appends a marker. With a buffer of exactly \<open>windowSize\<close> bytes the
  loop does not return on a content of at least that length. And a first read that
  delivers nothing, without an error, is taken for an empty stream: the content that
  follows is dropped and the output is the marker of the empty input.
\<close>

theorem C4_chunking_counterexample:
  "streamContent [(''// FileIntegrity: 00000000'' @ [LF] @ ''abcd'' @ [LF], ErrEOF)]
     = ''// FileIntegrity: 00000000'' @ [LF] @ ''abcd'' @ [LF]
   \<and> processStream cfg64 [(''// FileIntegrity: 00000000'' @ [LF] @ ''abcd'' @ [LF], ErrEOF)]
     = Some (Inr (True, ''// FileIntegrity: 00000000'' @ [LF] @ ''abcd'' @ [LF]))
   \<and> naiveProcess cfg64 (''// FileIntegrity: 00000000'' @ [LF] @ ''abcd'' @ [LF])
     = (False, ''// FileIntegrity: 00000000'' @ [LF] @ ''abcd'' @ [LF]
                 @ ''// FileIntegrity: 8A815DB0'' @ [LF])
   \<and> int (windowSize cfg30) \<le> BufferSize cfg30
   \<and> processStream cfg30 (fileReader (''// FileIntegrity: 00000000'' @ [LF] @ ''abcd'' @ [LF]))
     = None
   \<and> streamContent [([], ErrNil), (''abc'', ErrNil), ([], ErrEOF)] = ''abc''
   \<and> processStream cfg64 [([], ErrNil), (''abc'', ErrNil), ([], ErrEOF)]
     = Some (Inr (False, ''// FileIntegrity: 00000000'' @ [LF]))
   \<and> naiveProcess cfg64 ''abc''
     = (False, ''abc'' @ [LF] @ ''// FileIntegrity: 352441C2'' @ [LF])"
  using one_read_early_marker naive_early_marker empty_first_read naive_abc
    processStream_diverges [of cfg30 "''// FileIntegrity: 00000000'' @ [LF] @ ''abcd'' @ [LF]"]
  by (simp add: cfg30_simps)

lemma crc_digits_abc: "crc_update 0 ''0123456789abc'' = 0xCE68AD26"
  by (simp add: crc_defs)

lemma parse_CE68AD26: "parseCRC ''CE68AD26'' = Some 0xCE68AD26"
  by (simp add: hex_defs)

lemma find_stamped_window:
  "FindSubmatchIndex GoStyle (''bc'' @ [LF] @ ''// FileIntegrity: CE68AD26'' @ [LF])
     = Some (3, 30, 21, 29)"
  by code_simp

lemma naive_stamped:
  "naiveProcess cfg64 stampedContent = (True, stampedContent)"
  "naiveVerify cfg64 stampedContent = Inr True"
proof -
  have c: "crc_update (crc_update 0 ''0123456789a'') ''bc'' = 0xCE68AD26"
    by (simp add: crc_update_append crc_digits_abc)
  show "naiveProcess cfg64 stampedContent = (True, stampedContent)"
    using find_stamped_window c
    by (simp add: naiveProcess_def referenceProcess_def cfg64_simps finalizeWindow_def
        writerCrcPart_def parse_CE68AD26 stampedContent_def)
  show "naiveVerify cfg64 stampedContent = Inr True"
    using find_stamped_window c
    by (simp add: naiveVerify_def referenceVerify_def cfg64_simps verifyWindow_def
        readerCrcPart_def parse_CE68AD26 stampedContent_def)
qed

text \<open>
  C4, amended. The style is ASCII. With a buffer larger than \<open>windowSize\<close> and a
  reader that reports the end by a read of its own and no other error, after a non-empty
  first read and however the content is split into reads: both loops return, and unless
  the reader starts short (then both panic, the defect of C10) the Writer's output and
  no-op flag and the Reader's verdict are those of the naive reference, which checksums
  and writes all but the last \<open>windowSize\<close> bytes once, in order, and finalises the
  rest. So it is for every non-empty regular file, shorter than the window or not. With a
  buffer larger than \<open>windowSize\<close> both loops return on every reader (a script of
  finitely many reads, then the end). And for every buffer size and every reader that
  reports the end by a read of its own, after a non-empty first read a run that returns
  gives the slice panic, a read error, or exactly the naive reference's result.
\<close>

theorem C4_streaming_refinement:
  assumes "asciiStyle (CommentStyle c)"
  shows "(int (windowSize c) < BufferSize c \<and> eofAlone rd \<and> noReadError rd
          \<and> fst (fst (Read rd (nat (BufferSize c)))) \<noteq> [] \<longrightarrow>
            processStream c rd
              = Some (if shortStart c rd then Inl SlicePanic
                      else Inr (naiveProcess c (streamContent rd)))
            \<and> verifyStream c rd
              = Some (if shortStart c rd then Inl SlicePanic
                      else naiveVerify c (streamContent rd)))
       \<and> (C \<noteq> [] \<and> int (windowSize c) < BufferSize c \<longrightarrow>
            processStream c (fileReader C) = Some (Inr (naiveProcess c C))
            \<and> verifyStream c (fileReader C) = Some (naiveVerify c C))
       \<and> (int (windowSize c) < BufferSize c \<longrightarrow>
            (\<exists>x. processStream c rd = Some x) \<and> (\<exists>r. verifyStream c rd = Some r))
       \<and> (eofAlone rd \<and> fst (fst (Read rd (nat (BufferSize c)))) \<noteq> [] \<longrightarrow>
            (\<forall>x. processStream c rd = Some x \<longrightarrow>
                   x = Inl SlicePanic \<or> x = Inl ReadError
                   \<or> x = Inr (naiveProcess c (streamContent rd)))
            \<and> (\<forall>r. verifyStream c rd = Some r \<longrightarrow>
                   r = Inl SlicePanic \<or> r = Inl ReadError
                   \<or> r = naiveVerify c (streamContent rd)))"
  using processStream_exact [of c rd] verifyStream_exact [of c rd]
    processStream_file [of C c] verifyStream_file [of C c]
    processStream_returns [of c rd] verifyStream_returns [of c rd]
    processStream_eofAlone_full [of c rd] verifyStream_eofAlone [of c rd]
  by blast

theorem C4_streaming_refinement_witness:
  "asciiStyle (CommentStyle cfg64) \<and> int (windowSize cfg64) < BufferSize cfg64
   \<and> eofAlone stampedInChunks \<and> noReadError stampedInChunks
   \<and> fst (fst (Read stampedInChunks (nat (BufferSize cfg64))))
       = ''0123456789abc'' @ [LF] @ ''// FileIntegrity: CE6''
   \<and> \<not> shortStart cfg64 stampedInChunks
   \<and> streamContent stampedInChunks = stampedContent
   \<and> processStream cfg64 stampedInChunks = Some (Inr (True, stampedContent))
   \<and> verifyStream cfg64 stampedInChunks = Some (Inr True)
   \<and> processStream cfg64 (fileReader stampedContent) = Some (Inr (True, stampedContent))
   \<and> verifyStream cfg64 (fileReader stampedContent) = Some (Inr True)
   \<and> shortStart cfg64 [(''ab'', ErrNil), (''c'', ErrNil), ([], ErrEOF)]
   \<and> processStream cfg64 [(''ab'', ErrNil), (''c'', ErrNil), ([], ErrEOF)] = Some (Inl SlicePanic)
   \<and> verifyStream cfg64 [(''ab'', ErrNil), (''c'', ErrNil), ([], ErrEOF)] = Some (Inl SlicePanic)"
proof -
  have asc: "asciiStyle (CommentStyle cfg64)" by (simp add: cfg64_simps ascii_GoStyle)
  note a = C4_streaming_refinement [OF asc, of stampedInChunks stampedContent]
  note b = C4_streaming_refinement [OF asc, of "[(''ab'', ErrNil), (''c'', ErrNil), ([], ErrEOF)]" "[]"]
  have big: "int (windowSize cfg64) < BufferSize cfg64" by (simp add: cfg64_simps)
  have ea: "eofAlone stampedInChunks" by (simp add: eofAlone_def stampedInChunks_def)
  have nr: "noReadError stampedInChunks" by (simp add: noReadError_def stampedInChunks_def)
  have fr: "fst (fst (Read stampedInChunks (nat (BufferSize cfg64))))
       = ''0123456789abc'' @ [LF] @ ''// FileIntegrity: CE6''"
    by (simp add: stampedInChunks_def cfg64_simps)
  then have first: "fst (fst (Read stampedInChunks (nat (BufferSize cfg64)))) \<noteq> []"
    by simp
  have ns: "\<not> shortStart cfg64 stampedInChunks"
    by (simp add: shortStart_def stampedInChunks_def cfg64_simps)
  have sc: "streamContent stampedInChunks = stampedContent"
    by (simp add: stampedInChunks_def stampedContent_def)
  have ne: "stampedContent \<noteq> []" by (simp add: stampedContent_def)
  have 1: "processStream cfg64 stampedInChunks = Some (Inr (True, stampedContent))
           \<and> verifyStream cfg64 stampedInChunks = Some (Inr True)"
    using a big ea nr first ns unfolding sc naive_stamped by simp
  have 2: "processStream cfg64 (fileReader stampedContent) = Some (Inr (True, stampedContent))
           \<and> verifyStream cfg64 (fileReader stampedContent) = Some (Inr True)"
    using a big ne unfolding naive_stamped by blast
  have ea': "eofAlone [(''ab'', ErrNil), (''c'', ErrNil), ([], ErrEOF)]"
    and nr': "noReadError [(''ab'', ErrNil), (''c'', ErrNil), ([], ErrEOF)]"
    and first': "fst (fst (Read [(''ab'', ErrNil), (''c'', ErrNil), ([], ErrEOF)]
                   (nat (BufferSize cfg64)))) \<noteq> []"
    and sh: "shortStart cfg64 [(''ab'', ErrNil), (''c'', ErrNil), ([], ErrEOF)]"
    by (simp_all add: eofAlone_def noReadError_def shortStart_def cfg64_simps)
  have 3: "processStream cfg64 [(''ab'', ErrNil), (''c'', ErrNil), ([], ErrEOF)] = Some (Inl SlicePanic)
           \<and> verifyStream cfg64 [(''ab'', ErrNil), (''c'', ErrNil), ([], ErrEOF)] = Some (Inl SlicePanic)"
    using b big ea' nr' first' sh by simp
  from asc big ea nr fr ns sc 1 2 sh 3 show ?thesis by blast
qed

text \<open>
  C9. When the streaming pass over the target's content reports a no-op,
  \<open>ProcessFile\<close> succeeds, the operations it performs are the creation of the
  temporary file, the write to it and its removal, none of them on the target path, and
  the file system it leaves is the one it found: content and attributes of the target
  unchanged.
\<close>

theorem C9_noop_frame:
  assumes "fs w filename = Some f" and "tmpName \<notin> dom (fs w)"
    and "processStream c (fileReader (content f)) = Some (Inr (True, out))"
  shows "\<exists>w'. ProcessFile c (Some tmpName) w filename = Some (Inr (), w')
           \<and> fs w' = fs w
           \<and> trace w' = trace w @ [CreateTemp tmpName, WriteFile tmpName out, Remove tmpName]
           \<and> tmpName \<noteq> filename"
proof -
  have "((fs w)(tmpName \<mapsto> x))(tmpName := None) = fs w" for x
    using assms(2) by (auto simp: fun_eq_iff)
  with assms show ?thesis
    by (auto simp: ProcessFile_def Let_def osCreateTemp_def osWrite_def osRemove_def)
qed

lemma find_zero_marker:
  "FindSubmatchIndex GoStyle (''// FileIntegrity: 00000000'' @ [LF]) = Some (0, 27, 18, 26)"
  by code_simp

lemma process_zero_marker:
  "processStream DefaultConfig (fileReader (''// FileIntegrity: 00000000'' @ [LF]))
     = Some (Inr (True, ''// FileIntegrity: 00000000'' @ [LF]))"
proof -
  have "naiveProcess DefaultConfig (''// FileIntegrity: 00000000'' @ [LF])
          = (True, ''// FileIntegrity: 00000000'' @ [LF])"
    using find_zero_marker
    by (simp add: naiveProcess_def referenceProcess_def windowSize_Default finalizeWindow_def
        writerCrcPart_def parse_00000000 style_Default crc_update_Nil)
  then show ?thesis
    using processStream_file [of "''// FileIntegrity: 00000000'' @ [LF]" DefaultConfig]
    by (simp add: windowSize_Default buffer_Default)
qed

theorem C9_noop_frame_witness:
  "fs world0 ''main.go'' = Some \<lparr>content = ''// FileIntegrity: 00000000'' @ [LF], mode = 420,
                                  uid = 1000, gid = 1000, mtime = 5\<rparr>
   \<and> ''.hashfile_1.tmp'' \<notin> dom (fs world0)
   \<and> processStream DefaultConfig (fileReader (''// FileIntegrity: 00000000'' @ [LF]))
        = Some (Inr (True, ''// FileIntegrity: 00000000'' @ [LF]))
   \<and> (\<exists>w'. ProcessFile DefaultConfig (Some ''.hashfile_1.tmp'') world0 ''main.go''
                = Some (Inr (), w')
           \<and> fs w' = fs world0
           \<and> trace w' = [CreateTemp ''.hashfile_1.tmp'',
                          WriteFile ''.hashfile_1.tmp'' (''// FileIntegrity: 00000000'' @ [LF]),
                          Remove ''.hashfile_1.tmp''])"
proof -
  have 1: "fs world0 ''main.go'' = Some \<lparr>content = ''// FileIntegrity: 00000000'' @ [LF],
             mode = 420, uid = 1000, gid = 1000, mtime = 5\<rparr>"
    and 2: "''.hashfile_1.tmp'' \<notin> dom (fs world0)"
    and 3: "trace world0 = []"
    by (simp_all add: world0_def)
  have 4: "processStream DefaultConfig
             (fileReader (content \<lparr>content = ''// FileIntegrity: 00000000'' @ [LF],
                mode = 420, uid = 1000, gid = 1000, mtime = 5\<rparr>))
           = Some (Inr (True, ''// FileIntegrity: 00000000'' @ [LF]))"
    using process_zero_marker by simp
  from C9_noop_frame [OF 1 2 4] 3 process_zero_marker 1 2 show ?thesis
    by auto
qed

end
